theory Spec2Isabelle
  imports Main "HOL-Library.Char_ord"
begin

section \<open>JavaScript strings\<close>

text \<open>
  A JavaScript string is a sequence of UTF-16 code units. The model is \<open>string\<close>, one
  \<open>char\<close> per code unit, so the strings of the model are those whose code units lie in
  U+0000..U+00FF; \<open>length\<close> counts code units as \<open>String.prototype.length\<close> does.
  On that range the three primitives below are exactly ECMAScript's: the white space and
  line terminators of \<open>trim\<close> and of the regular expression class \<open>\s\<close> are TAB, LF, VT, FF,
  CR, SP and NBSP, and \<open>toLowerCase\<close> maps A-Z and the Latin-1 capitals U+00C0..U+00DE
  (without the multiplication sign U+00D7) to the code unit 32 above.
\<close>

definition isWhiteSpace :: "char \<Rightarrow> bool" where
  "isWhiteSpace c =
     (c \<in> set [CHR 0x09, CHR 0x0A, CHR 0x0B, CHR 0x0C, CHR 0x0D, CHR 0x20, CHR 0xA0])"

definition trim :: "string \<Rightarrow> string" where
  "trim s = rev (dropWhile isWhiteSpace (rev (dropWhile isWhiteSpace s)))"

definition toLowerChar :: "char \<Rightarrow> char" where
  "toLowerChar c =
     (if (CHR ''A'' \<le> c \<and> c \<le> CHR ''Z'') \<or> (CHR 0xC0 \<le> c \<and> c \<le> CHR 0xD6)
         \<or> (CHR 0xD8 \<le> c \<and> c \<le> CHR 0xDE)
      then char_of (of_char c + (32::nat)) else c)"

definition toLowerCase :: "string \<Rightarrow> string" where
  "toLowerCase s = map toLowerChar s"

text \<open>\<open>s.startsWith(n)\<close> and \<open>s.includes(n)\<close>: \<open>n\<close> occurs at the start of, or somewhere in, \<open>s\<close>.\<close>

fun startsWith :: "string \<Rightarrow> string \<Rightarrow> bool" where
  "startsWith s [] = True"
| "startsWith [] (b # n) = False"
| "startsWith (a # s) (b # n) = (a = b \<and> startsWith s n)"

fun js_includes :: "string \<Rightarrow> string \<Rightarrow> bool" where
  "js_includes [] n = (n = [])"
| "js_includes (a # s) n = (startsWith (a # s) n \<or> js_includes s n)"

text \<open>
  Truthiness of a value of type \<open>string | undefined | null\<close>: only a non-empty string is
  truthy. \<open>None\<close> stands for \<open>undefined\<close> and \<open>null\<close>.
\<close>

definition truthy :: "string option \<Rightarrow> bool" where
  "truthy v = (case v of None \<Rightarrow> False | Some s \<Rightarrow> s \<noteq> [])"

subsection \<open>The regular expressions of the validators\<close>

text \<open>
  Both regular expressions of the program have the shape \<open>/^ item ... item $/\<close> where an item
  is a character class or literal, once or with \<open>+\<close>. \<open>regex_test\<close> is \<open>RegExp.prototype.test\<close>
  for such an expression: a backtracking match of the whole input (no flag is set, so \<open>^\<close>
  and \<open>$\<close> are the two ends of the input).
\<close>

datatype regex_item = One "char \<Rightarrow> bool" | Many1 "char \<Rightarrow> bool"

fun regex_test :: "regex_item list \<Rightarrow> string \<Rightarrow> bool" where
  "regex_test [] s = (s = [])"
| "regex_test (One p # r) [] = False"
| "regex_test (One p # r) (c # s) = (p c \<and> regex_test r s)"
| "regex_test (Many1 p # r) [] = False"
| "regex_test (Many1 p # r) (c # s) = (p c \<and> (regex_test (Many1 p # r) s \<or> regex_test r s))"

text \<open>The class \<open>[a-zA-Z\s\-']\<close>.\<close>

definition nameClass :: "char \<Rightarrow> bool" where
  "nameClass c =
     ((CHR ''a'' \<le> c \<and> c \<le> CHR ''z'') \<or> (CHR ''A'' \<le> c \<and> c \<le> CHR ''Z'')
      \<or> isWhiteSpace c \<or> c = CHR ''-'' \<or> c = CHR 0x27)"

text \<open>\<open>/^[a-zA-Z\s\-']+$/\<close>\<close>

definition nameRegex :: "regex_item list" where
  "nameRegex = [Many1 nameClass]"

text \<open>The class \<open>[^\s@]\<close>.\<close>

definition notSpaceAt :: "char \<Rightarrow> bool" where
  "notSpaceAt c = (\<not> isWhiteSpace c \<and> c \<noteq> CHR ''@'')"

text \<open>\<open>/^[^\s@]+@[^\s@]+\.[^\s@]+$/\<close>\<close>

definition emailRegex :: "regex_item list" where
  "emailRegex =
     [Many1 notSpaceAt, One (\<lambda>c. c = CHR ''@''), Many1 notSpaceAt, One (\<lambda>c. c = CHR ''.''),
      Many1 notSpaceAt]"

section \<open>The validators of the student form (src/components/student-form.tsx)\<close>

text \<open>
  Each validator returns \<open>string | undefined\<close>: \<open>Some\<close> error message, or \<open>None\<close> for
  \<open>undefined\<close> (the field is valid).
\<close>

definition validateName :: "string \<Rightarrow> string option" where
  "validateName name =
     (if \<not> truthy (Some (trim name)) then Some ''Name is required''
      else if length (trim name) < 2 then Some ''Name must be at least 2 characters long''
      else if length (trim name) > 50 then Some ''Name must be less than 50 characters''
      else if \<not> regex_test nameRegex (trim name)
        then Some ''Name can only contain letters, spaces, hyphens, and apostrophes''
      else None)"

definition validateEmailFormat :: "string \<Rightarrow> string option" where
  "validateEmailFormat email =
     (if \<not> truthy (Some (trim email)) then Some ''Email is required''
      else if \<not> regex_test emailRegex email then Some ''Please enter a valid email address''
      else None)"

definition validateCourse :: "string \<Rightarrow> string option" where
  "validateCourse course =
     (if \<not> truthy (Some course) then Some ''Please select a course'' else None)"

section \<open>Completions\<close>

text \<open>
  A JavaScript call returns normally or throws. \<open>Unmodelled\<close> marks the few inputs whose
  behaviour the model does not describe (each place that yields it says which); a
  \<open>try\<close>/\<open>catch\<close> does not turn it into anything else.
\<close>

datatype js_error = SecurityError | QuotaExceededError | SyntaxError

datatype 'a completion = Normal 'a | Throw js_error | Unmodelled

definition try_catch :: "'a completion \<Rightarrow> (js_error \<Rightarrow> 'a completion) \<Rightarrow> 'a completion" where
  "try_catch body handler = (case body of Throw e \<Rightarrow> handler e | other \<Rightarrow> other)"

section \<open>JavaScript objects and JSON\<close>

text \<open>
  The values that pass through \<open>JSON.stringify\<close> and \<open>JSON.parse\<close>: those JSON denotes, and
  \<open>undefined\<close>, which a property or an array element can hold and for which JSON has no
  text. An object is the list of its own properties in the order in which
  \<open>Object.entries\<close>, \<open>JSON.stringify\<close> and \<open>for-in\<close> enumerate them; a property whose value is
  \<open>undefined\<close> is in that list, with the value \<open>JUndefined\<close>. A number is kept as the
  literal that denotes it: its value (an IEEE double) is not modelled, and nothing below
  inspects it.
\<close>

datatype json =
    JUndefined
  | JNull
  | JBool bool
  | JNum string
  | JStr string
  | JArr "json list"
  | JObj "(string \<times> json) list"

definition isArray :: "json \<Rightarrow> bool" where
  "isArray v = (case v of JArr xs \<Rightarrow> True | _ \<Rightarrow> False)"

text \<open>\<open>v[k]\<close> for an own property of an object; \<open>None\<close> is \<open>undefined\<close>.\<close>

definition property :: "json \<Rightarrow> string \<Rightarrow> json option" where
  "property v k = (case v of JObj ps \<Rightarrow> map_of ps k | _ \<Rightarrow> None)"

subsection \<open>Property order of an ordinary object\<close>

definition isDigit :: "char \<Rightarrow> bool" where
  "isDigit c = (CHR ''0'' \<le> c \<and> c \<le> CHR ''9'')"

text \<open>
  An array index is a canonical numeric string below \<open>2^32 - 1\<close>. Properties so named are
  enumerated first, in ascending numeric order; all others follow in creation order.
  Canonical numeric strings compare as numbers by length first, then digit by digit.
\<close>

fun lexLess :: "string \<Rightarrow> string \<Rightarrow> bool" where
  "lexLess [] [] = False"
| "lexLess [] (b # bs) = True"
| "lexLess (a # as) [] = False"
| "lexLess (a # as) (b # bs) = (a < b \<or> (a = b \<and> lexLess as bs))"

definition indexLess :: "string \<Rightarrow> string \<Rightarrow> bool" where
  "indexLess a b = (length a < length b \<or> (length a = length b \<and> lexLess a b))"

definition isArrayIndex :: "string \<Rightarrow> bool" where
  "isArrayIndex k =
     (k \<noteq> [] \<and> list_all isDigit k \<and> (k = ''0'' \<or> hd k \<noteq> CHR ''0'')
      \<and> indexLess k ''4294967295'')"

fun insertIndexKey :: "string \<Rightarrow> 'v \<Rightarrow> (string \<times> 'v) list \<Rightarrow> (string \<times> 'v) list" where
  "insertIndexKey k v [] = [(k, v)]"
| "insertIndexKey k v (p # ps) =
     (if isArrayIndex (fst p) \<and> indexLess (fst p) k
      then p # insertIndexKey k v ps else (k, v) # p # ps)"

text \<open>\<open>obj[k]\<close> on own properties, and \<open>obj[k] = v\<close> (a new property, or a new value in place).\<close>

definition obj_get :: "(string \<times> 'v) list \<Rightarrow> string \<Rightarrow> 'v option" where
  "obj_get ps k = map_of ps k"

definition obj_set :: "(string \<times> 'v) list \<Rightarrow> string \<Rightarrow> 'v \<Rightarrow> (string \<times> 'v) list" where
  "obj_set ps k v =
     (if k \<in> set (map fst ps) then map (\<lambda>p. if fst p = k then (k, v) else p) ps
      else if isArrayIndex k then insertIndexKey k v ps
      else ps @ [(k, v)])"

text \<open>
  \<open>obj.k\<close> as a value, for an object of values and a name that \<open>Object.prototype\<close> does not
  define (such as \<open>id\<close>): the value of the own property, \<open>undefined\<close> when there is none.
\<close>

definition get_property :: "(string \<times> json) list \<Rightarrow> string \<Rightarrow> json" where
  "get_property ps k = (case obj_get ps k of None \<Rightarrow> JUndefined | Some v \<Rightarrow> v)"

text \<open>
  A canonical numeric string (digits, no leading zero) and the number a string of decimal
  digits denotes; and the order in which an object enumerates its property names, in the
  words of the language definition: the names that are array indices in ascending numeric
  order, then the other names in the order in which the properties were created. \<open>enumerationOrder\<close> gives that order for the properties
  created by assigning to the names of a list in turn (a name met again creates nothing);
  \<open>firstOccurrences\<close> is the distinct values of a list in the order of their first
  occurrence, and \<open>indicesFirst\<close> says of a list of names that its array indices come
  before its other names.
\<close>

definition canonicalNumeric :: "string \<Rightarrow> bool" where
  "canonicalNumeric k = (k \<noteq> [] \<and> list_all isDigit k \<and> (k = ''0'' \<or> hd k \<noteq> CHR ''0''))"

definition decimalValue :: "string \<Rightarrow> nat" where
  "decimalValue s = foldl (\<lambda>n c. 10 * n + (of_char c - 48)) 0 s"

fun firstOccurrences :: "'a list \<Rightarrow> 'a list" where
  "firstOccurrences [] = []"
| "firstOccurrences (x # xs) = x # filter (\<lambda>y. y \<noteq> x) (firstOccurrences xs)"

definition indicesFirst :: "string list \<Rightarrow> bool" where
  "indicesFirst ks = (ks = filter isArrayIndex ks @ filter (\<lambda>k. \<not> isArrayIndex k) ks)"

definition enumerationOrder :: "string list \<Rightarrow> string list" where
  "enumerationOrder ks =
     sort_key decimalValue (remdups (filter isArrayIndex ks))
     @ firstOccurrences (filter (\<lambda>k. \<not> isArrayIndex k) ks)"

subsection \<open>JSON.stringify\<close>

definition hexDigit :: "nat \<Rightarrow> char" where
  "hexDigit n = ''0123456789abcdef'' ! n"

text \<open>
  One code unit inside \<open>QuoteJSONString\<close>: the two-character escapes, \<open>\u00xx\<close> for the
  other control characters, and every other code unit as it is.
\<close>

definition escapeChar :: "char \<Rightarrow> string" where
  "escapeChar c =
     (if c = CHR 0x08 then [CHR 0x5C, CHR ''b'']
      else if c = CHR 0x09 then [CHR 0x5C, CHR ''t'']
      else if c = CHR 0x0A then [CHR 0x5C, CHR ''n'']
      else if c = CHR 0x0C then [CHR 0x5C, CHR ''f'']
      else if c = CHR 0x0D then [CHR 0x5C, CHR ''r'']
      else if c = CHR 0x22 then [CHR 0x5C, CHR 0x22]
      else if c = CHR 0x5C then [CHR 0x5C, CHR 0x5C]
      else if c < CHR 0x20 then
        [CHR 0x5C, CHR ''u'', CHR ''0'', CHR ''0'',
         hexDigit ((of_char c :: nat) div 16), hexDigit ((of_char c :: nat) mod 16)]
      else [c])"

definition QuoteJSONString :: "string \<Rightarrow> string" where
  "QuoteJSONString s = CHR 0x22 # concat (map escapeChar s) @ [CHR 0x22]"

text \<open>The texts of the elements or members, joined by commas.\<close>

fun join_commas :: "string list \<Rightarrow> string" where
  "join_commas [] = []"
| "join_commas [t] = t"
| "join_commas (t # u # ts) = t @ '','' @ join_commas (u # ts)"

text \<open>
  \<open>JSON.stringify(v)\<close> with no replacer and no indentation. Its result is \<open>undefined\<close>
  (\<open>None\<close>) for \<open>undefined\<close> and a text for every other value. In an array, \<open>undefined\<close> is
  written \<open>null\<close>; in an object, a property whose value is \<open>undefined\<close> is left out.
  \<open>stringify_elements\<close> and \<open>stringify_members\<close> are the texts of the elements of an array
  and of the members of an object. A number is written as the literal kept for it, which
  need not be the one JavaScript prints: the round trip below is about values without
  numbers.
\<close>

fun JSON_stringify :: "json \<Rightarrow> string option"
  and stringify_elements :: "json list \<Rightarrow> string list"
  and stringify_members :: "(string \<times> json) list \<Rightarrow> string list" where
  "JSON_stringify JUndefined = None"
| "JSON_stringify JNull = Some ''null''"
| "JSON_stringify (JBool b) = Some (if b then ''true'' else ''false'')"
| "JSON_stringify (JNum n) = Some n"
| "JSON_stringify (JStr s) = Some (QuoteJSONString s)"
| "JSON_stringify (JArr vs) = Some (''['' @ join_commas (stringify_elements vs) @ '']'')"
| "JSON_stringify (JObj ms) = Some (''{'' @ join_commas (stringify_members ms) @ ''}'')"
| "stringify_elements [] = []"
| "stringify_elements (v # vs) =
     (case JSON_stringify v of None \<Rightarrow> ''null'' | Some t \<Rightarrow> t) # stringify_elements vs"
| "stringify_members [] = []"
| "stringify_members ((k, v) # ms) =
     (case JSON_stringify v of
        None \<Rightarrow> stringify_members ms
      | Some t \<Rightarrow> (QuoteJSONString k @ '':'' @ t) # stringify_members ms)"

subsection \<open>JSON.parse\<close>

datatype parse_error = BadSyntax | WideEscape | NoFuel

datatype 'a presult = POk 'a string | PErr parse_error

text \<open>JSON white space: TAB, LF, CR and SP.\<close>

definition isJSONSpace :: "char \<Rightarrow> bool" where
  "isJSONSpace c = (c \<in> set [CHR 0x09, CHR 0x0A, CHR 0x0D, CHR 0x20])"

definition skip_ws :: "string \<Rightarrow> string" where
  "skip_ws s = dropWhile isJSONSpace s"

definition hexValue :: "char \<Rightarrow> nat option" where
  "hexValue c =
     (if CHR ''0'' \<le> c \<and> c \<le> CHR ''9'' then Some (of_char c - 48)
      else if CHR ''a'' \<le> c \<and> c \<le> CHR ''f'' then Some (of_char c - 87)
      else if CHR ''A'' \<le> c \<and> c \<le> CHR ''F'' then Some (of_char c - 55)
      else None)"

definition hex4 :: "char \<Rightarrow> char \<Rightarrow> char \<Rightarrow> char \<Rightarrow> nat option" where
  "hex4 a b c d =
     (case (hexValue a, hexValue b, hexValue c, hexValue d) of
        (Some x, Some y, Some z, Some w) \<Rightarrow> Some (4096 * x + 256 * y + 16 * z + w)
      | _ \<Rightarrow> None)"

text \<open>The character after a backslash, for the eight two-character escapes.\<close>

definition unescape :: "char \<Rightarrow> char option" where
  "unescape e =
     (if e = CHR 0x22 then Some (CHR 0x22)
      else if e = CHR 0x5C then Some (CHR 0x5C)
      else if e = CHR ''/'' then Some (CHR ''/'')
      else if e = CHR ''b'' then Some (CHR 0x08)
      else if e = CHR ''f'' then Some (CHR 0x0C)
      else if e = CHR ''n'' then Some (CHR 0x0A)
      else if e = CHR ''r'' then Some (CHR 0x0D)
      else if e = CHR ''t'' then Some (CHR 0x09)
      else None)"

definition pcons :: "char \<Rightarrow> string presult \<Rightarrow> string presult" where
  "pcons c r = (case r of POk s rest \<Rightarrow> POk (c # s) rest | PErr e \<Rightarrow> PErr e)"

text \<open>
  The characters of a string literal after its opening quote, up to the closing quote.
  An escape \<open>\uXXXX\<close> above \<open>\u00ff\<close> denotes a code unit outside the strings of this model
  and is reported as \<open>WideEscape\<close>.
\<close>

fun parse_chars :: "string \<Rightarrow> string presult" where
  "parse_chars [] = PErr BadSyntax"
| "parse_chars (c # s) =
     (if c = CHR 0x22 then POk [] s
      else if c = CHR 0x5C then
        (case s of
           [] \<Rightarrow> PErr BadSyntax
         | e # s1 \<Rightarrow>
             if e = CHR ''u'' then
               (case s1 of
                  h1 # h2 # h3 # h4 # s2 \<Rightarrow>
                    (case hex4 h1 h2 h3 h4 of
                       None \<Rightarrow> PErr BadSyntax
                     | Some n \<Rightarrow> if n < 256 then pcons (char_of n) (parse_chars s2)
                                else PErr WideEscape)
                | _ \<Rightarrow> PErr BadSyntax)
             else
               (case unescape e of
                  None \<Rightarrow> PErr BadSyntax
                | Some d \<Rightarrow> pcons d (parse_chars s1)))
      else if c < CHR 0x20 then PErr BadSyntax
      else pcons c (parse_chars s))"

text \<open>
  A number literal \<open>-? (0 | [1-9][0-9]*) (. [0-9]+)? ([eE] [+-]? [0-9]+)?\<close>: the literal and
  the rest of the input.
\<close>

definition digits1 :: "string \<Rightarrow> (string \<times> string) option" where
  "digits1 s =
     (if takeWhile isDigit s = [] then None
      else Some (takeWhile isDigit s, dropWhile isDigit s))"

definition parse_int_part :: "string \<Rightarrow> (string \<times> string) option" where
  "parse_int_part s =
     (case s of
        [] \<Rightarrow> None
      | c # r \<Rightarrow> if c = CHR ''0'' then Some (''0'', r) else digits1 s)"

definition parse_fraction :: "string \<Rightarrow> (string \<times> string) option" where
  "parse_fraction s =
     (case s of
        [] \<Rightarrow> Some ([], s)
      | c # r \<Rightarrow>
          if c = CHR ''.'' then
            (case digits1 r of None \<Rightarrow> None | Some (ds, r') \<Rightarrow> Some (c # ds, r'))
          else Some ([], s))"

definition parse_exponent :: "string \<Rightarrow> (string \<times> string) option" where
  "parse_exponent s =
     (case s of
        [] \<Rightarrow> Some ([], s)
      | c # r \<Rightarrow>
          if c = CHR ''e'' \<or> c = CHR ''E'' then
            (case r of
               [] \<Rightarrow> None
             | g # r1 \<Rightarrow>
                 if g = CHR ''+'' \<or> g = CHR ''-'' then
                   (case digits1 r1 of None \<Rightarrow> None | Some (ds, r') \<Rightarrow> Some (c # g # ds, r'))
                 else
                   (case digits1 r of None \<Rightarrow> None | Some (ds, r') \<Rightarrow> Some (c # ds, r')))
          else Some ([], s))"

definition parse_number :: "string \<Rightarrow> (string \<times> string) option" where
  "parse_number s =
     (let (sign, s0) = (case s of [] \<Rightarrow> ([], s)
                        | c # r \<Rightarrow> if c = CHR ''-'' then ([c], r) else ([], s))
      in case parse_int_part s0 of
           None \<Rightarrow> None
         | Some (ip, s1) \<Rightarrow>
             (case parse_fraction s1 of
                None \<Rightarrow> None
              | Some (fp, s2) \<Rightarrow>
                  (case parse_exponent s2 of
                     None \<Rightarrow> None
                   | Some (ep, s3) \<Rightarrow> Some (sign @ ip @ fp @ ep, s3))))"

text \<open>
  The object a list of parsed members denotes: each member defines its property in turn, so
  a repeated name keeps its first place and its last value.
\<close>

definition make_object :: "(string \<times> json) list \<Rightarrow> (string \<times> json) list" where
  "make_object ms = foldl (\<lambda>ps m. obj_set ps (fst m) (snd m)) [] ms"

text \<open>
  The recursive-descent parser. The first argument bounds the number of nested calls;
  \<open>JSON_parse\<close> starts it high enough that it is never used up (lemma \<open>parse_fuel\<close>
  below).
\<close>

fun parse_value :: "nat \<Rightarrow> string \<Rightarrow> json presult"
  and parse_elements :: "nat \<Rightarrow> string \<Rightarrow> (json list) presult"
  and parse_members :: "nat \<Rightarrow> string \<Rightarrow> ((string \<times> json) list) presult" where
  "parse_value 0 s = PErr NoFuel"
| "parse_value (Suc n) s =
     (case skip_ws s of
        [] \<Rightarrow> PErr BadSyntax
      | c # r \<Rightarrow>
          if c = CHR ''{'' then
            (case skip_ws r of
               [] \<Rightarrow> PErr BadSyntax
             | d # r' \<Rightarrow>
                 if d = CHR ''}'' then POk (JObj []) r'
                 else (case parse_members n (d # r') of
                         POk ms r'' \<Rightarrow> POk (JObj (make_object ms)) r''
                       | PErr e \<Rightarrow> PErr e))
          else if c = CHR ''['' then
            (case skip_ws r of
               [] \<Rightarrow> PErr BadSyntax
             | d # r' \<Rightarrow>
                 if d = CHR '']'' then POk (JArr []) r'
                 else (case parse_elements n (d # r') of
                         POk vs r'' \<Rightarrow> POk (JArr vs) r''
                       | PErr e \<Rightarrow> PErr e))
          else if c = CHR 0x22 then
            (case parse_chars r of POk str r' \<Rightarrow> POk (JStr str) r' | PErr e \<Rightarrow> PErr e)
          else if startsWith (c # r) ''true'' then POk (JBool True) (drop 4 (c # r))
          else if startsWith (c # r) ''false'' then POk (JBool False) (drop 5 (c # r))
          else if startsWith (c # r) ''null'' then POk JNull (drop 4 (c # r))
          else (case parse_number (c # r) of
                  Some (lit, r') \<Rightarrow> POk (JNum lit) r'
                | None \<Rightarrow> PErr BadSyntax))"
| "parse_elements 0 s = PErr NoFuel"
| "parse_elements (Suc n) s =
     (case parse_value n s of
        PErr e \<Rightarrow> PErr e
      | POk v r \<Rightarrow>
          (case skip_ws r of
             [] \<Rightarrow> PErr BadSyntax
           | c # r' \<Rightarrow>
               if c = CHR '','' then
                 (case parse_elements n r' of
                    POk vs r'' \<Rightarrow> POk (v # vs) r''
                  | PErr e \<Rightarrow> PErr e)
               else if c = CHR '']'' then POk [v] r'
               else PErr BadSyntax))"
| "parse_members 0 s = PErr NoFuel"
| "parse_members (Suc n) s =
     (case skip_ws s of
        [] \<Rightarrow> PErr BadSyntax
      | q # r \<Rightarrow>
          if q \<noteq> CHR 0x22 then PErr BadSyntax
          else
            (case parse_chars r of
               PErr e \<Rightarrow> PErr e
             | POk k r1 \<Rightarrow>
                 (case skip_ws r1 of
                    [] \<Rightarrow> PErr BadSyntax
                  | c # r2 \<Rightarrow>
                      if c \<noteq> CHR '':'' then PErr BadSyntax
                      else
                        (case parse_value n r2 of
                           PErr e \<Rightarrow> PErr e
                         | POk v r3 \<Rightarrow>
                             (case skip_ws r3 of
                                [] \<Rightarrow> PErr BadSyntax
                              | d # r4 \<Rightarrow>
                                  if d = CHR '','' then
                                    (case parse_members n r4 of
                                       POk ms r5 \<Rightarrow> POk ((k, v) # ms) r5
                                     | PErr e \<Rightarrow> PErr e)
                                  else if d = CHR ''}'' then POk [(k, v)] r4
                                  else PErr BadSyntax)))))"

text \<open>
  \<open>JSON.parse(text)\<close>: one value, white space around it, and nothing else. A text with
  an escape above \<open>\u00ff\<close> (before any syntax error) is \<open>Unmodelled\<close>.
\<close>

definition JSON_parse :: "string \<Rightarrow> json completion" where
  "JSON_parse text =
     (case parse_value (2 * length text + 2) text of
        POk v r \<Rightarrow> if skip_ws r = [] then Normal v else Throw SyntaxError
      | PErr WideEscape \<Rightarrow> Unmodelled
      | PErr e \<Rightarrow> Throw SyntaxError)"

subsection \<open>Values that survive serialisation\<close>

text \<open>
  What JSON keeps of a value: the value without the properties whose value is \<open>undefined\<close>,
  and with \<open>null\<close> for the array elements that are \<open>undefined\<close>, at every depth.
\<close>

fun without_undefined :: "json \<Rightarrow> json"
  and without_undefined_elements :: "json list \<Rightarrow> json list"
  and without_undefined_members :: "(string \<times> json) list \<Rightarrow> (string \<times> json) list" where
  "without_undefined JUndefined = JUndefined"
| "without_undefined JNull = JNull"
| "without_undefined (JBool b) = JBool b"
| "without_undefined (JNum n) = JNum n"
| "without_undefined (JStr s) = JStr s"
| "without_undefined (JArr vs) = JArr (without_undefined_elements vs)"
| "without_undefined (JObj ms) = JObj (without_undefined_members ms)"
| "without_undefined_elements [] = []"
| "without_undefined_elements (v # vs) =
     (if v = JUndefined then JNull else without_undefined v) # without_undefined_elements vs"
| "without_undefined_members [] = []"
| "without_undefined_members ((k, v) # ms) =
     (if v = JUndefined then without_undefined_members ms
      else (k, without_undefined v) # without_undefined_members ms)"

text \<open>
  The values whose text the parser of this model reads back: built from \<open>undefined\<close>,
  \<open>null\<close>, booleans, strings, arrays and objects whose property names are distinct and are
  not array indices. Every object whose fields hold strings or \<open>undefined\<close>, such as a
  student, is one.
\<close>

fun storable :: "json \<Rightarrow> bool"
  and storable_elements :: "json list \<Rightarrow> bool"
  and storable_members :: "(string \<times> json) list \<Rightarrow> bool" where
  "storable JUndefined = True"
| "storable JNull = True"
| "storable (JBool b) = True"
| "storable (JNum n) = False"
| "storable (JStr s) = True"
| "storable (JArr vs) = storable_elements vs"
| "storable (JObj ms) =
     (distinct (map fst ms) \<and> \<not> list_ex isArrayIndex (map fst ms) \<and> storable_members ms)"
| "storable_elements [] = True"
| "storable_elements (v # vs) = (storable v \<and> storable_elements vs)"
| "storable_members [] = True"
| "storable_members ((k, v) # ms) = (storable v \<and> storable_members ms)"

text \<open>
  Among them, the values that hold \<open>undefined\<close> nowhere: for these \<open>JSON.parse\<close> undoes
  \<open>JSON.stringify\<close>.
\<close>

fun plain :: "json \<Rightarrow> bool"
  and plain_elements :: "json list \<Rightarrow> bool"
  and plain_members :: "(string \<times> json) list \<Rightarrow> bool" where
  "plain JUndefined = False"
| "plain JNull = True"
| "plain (JBool b) = True"
| "plain (JNum n) = False"
| "plain (JStr s) = True"
| "plain (JArr vs) = plain_elements vs"
| "plain (JObj ms) =
     (distinct (map fst ms) \<and> \<not> list_ex isArrayIndex (map fst ms) \<and> plain_members ms)"
| "plain_elements [] = True"
| "plain_elements (v # vs) = (plain v \<and> plain_elements vs)"
| "plain_members [] = True"
| "plain_members ((k, v) # ms) = (plain v \<and> plain_members ms)"

text \<open>
  A record whose fields hold strings or \<open>undefined\<close>, under distinct names that are not
  array indices: the shape of a student, whether it is of the sample set, was read from the
  storage or was built by the form. \<open>defined_properties\<close> is such a record without the
  properties whose value is \<open>undefined\<close>.
\<close>

definition flat_record :: "(string \<times> json) list \<Rightarrow> bool" where
  "flat_record ps =
     (distinct (map fst ps) \<and> \<not> list_ex isArrayIndex (map fst ps)
      \<and> list_all (\<lambda>p. case snd p of JUndefined \<Rightarrow> True | JStr s \<Rightarrow> True | _ \<Rightarrow> False) ps)"

definition defined_properties :: "(string \<times> json) list \<Rightarrow> (string \<times> json) list" where
  "defined_properties ps = filter (\<lambda>p. snd p \<noteq> JUndefined) ps"

text \<open>The characters a serialised value of that kind can start with.\<close>

definition opens_value :: "char \<Rightarrow> bool" where
  "opens_value c = (c \<in> set [CHR ''n'', CHR ''t'', CHR ''f'', CHR 0x22, CHR ''['', CHR ''{''])"

section \<open>Students (the interface \<open>Student\<close>, src/unnamed/part_000)\<close>

datatype student_status = Active | Inactive | Graduated

definition status_text :: "student_status \<Rightarrow> string" where
  "status_text st =
     (case st of Active \<Rightarrow> ''active'' | Inactive \<Rightarrow> ''inactive'' | Graduated \<Rightarrow> ''graduated'')"

text \<open>
  A student as the code that only reads its fields sees it (the validators of the form, the
  list, the statistics). The field \<open>id\<close> is \<open>sid\<close> here (\<open>id\<close> is HOL's identity function);
  a \<open>profileImage\<close> that is absent or \<open>undefined\<close> is \<open>None\<close>. The persistence adapter and the
  record array of the dashboard hold the JavaScript objects themselves (type \<open>json\<close>), where
  the order of the properties and a property whose value is \<open>undefined\<close> show.
\<close>

record student =
  sid :: string
  name :: string
  email :: string
  course :: string
  profileImage :: "string option"
  enrollmentDate :: string
  status :: student_status

section \<open>The persistence adapter (src/lib/student-storage.ts)\<close>

text \<open>
  The browser as the adapter sees it: whether \<open>window\<close> is defined, the entries of
  \<open>localStorage\<close>, and how the medium fails: \<open>storage_denied\<close> when every access throws a
  SecurityError, \<open>storage_full\<close> when \<open>setItem\<close> throws a QuotaExceededError. \<open>calls\<close> records
  every call made on \<open>localStorage\<close>, the latest last.
\<close>

datatype storage_call = GetItem string | SetItem string string | RemoveItem string

record browser =
  window_defined :: bool
  storage_denied :: bool
  storage_full :: bool
  items :: "string \<Rightarrow> string option"
  calls :: "storage_call list"

definition getItem :: "string \<Rightarrow> browser \<Rightarrow> (string option) completion \<times> browser" where
  "getItem k env =
     (if storage_denied env then Throw SecurityError else Normal (items env k),
      env\<lparr>calls := calls env @ [GetItem k]\<rparr>)"

definition setItem :: "string \<Rightarrow> string \<Rightarrow> browser \<Rightarrow> unit completion \<times> browser" where
  "setItem k v env =
     (if storage_denied env then (Throw SecurityError, env\<lparr>calls := calls env @ [SetItem k v]\<rparr>)
      else if storage_full env
        then (Throw QuotaExceededError, env\<lparr>calls := calls env @ [SetItem k v]\<rparr>)
      else (Normal (), env\<lparr>items := (items env)(k \<mapsto> v), calls := calls env @ [SetItem k v]\<rparr>))"

definition removeItem :: "string \<Rightarrow> browser \<Rightarrow> unit completion \<times> browser" where
  "removeItem k env =
     (if storage_denied env then (Throw SecurityError, env\<lparr>calls := calls env @ [RemoveItem k]\<rparr>)
      else (Normal (), env\<lparr>items := (items env)(k := None), calls := calls env @ [RemoveItem k]\<rparr>))"

definition STORAGE_KEY :: string where
  "STORAGE_KEY = ''student-management-data''"

definition getDefaultStudents :: "json list" where
  "getDefaultStudents =
     [JObj [(''id'', JStr ''1''), (''name'', JStr ''Alice Johnson''),
            (''email'', JStr ''alice.johnson@email.com''), (''course'', JStr ''Computer Science''),
            (''profileImage'', JStr ''/professional-woman-portrait.png''),
            (''enrollmentDate'', JStr ''2024-01-15''), (''status'', JStr ''active'')],
      JObj [(''id'', JStr ''2''), (''name'', JStr ''Bob Smith''),
            (''email'', JStr ''bob.smith@email.com''), (''course'', JStr ''Data Science''),
            (''profileImage'', JStr ''/professional-man-portrait.png''),
            (''enrollmentDate'', JStr ''2024-02-01''), (''status'', JStr ''active'')],
      JObj [(''id'', JStr ''3''), (''name'', JStr ''Carol Davis''),
            (''email'', JStr ''carol.davis@email.com''), (''course'', JStr ''Web Development''),
            (''profileImage'', JStr ''/professional-woman-portrait.png''),
            (''enrollmentDate'', JStr ''2023-09-10''), (''status'', JStr ''graduated'')]]"

text \<open>
  \<open>getStudents\<close>: the body of the \<open>try\<close>, then the \<open>catch\<close>. The result type \<open>Student[]\<close> is
  not checked at run time: what comes back is whatever array the stored text denotes.
  (The \<open>console.error\<close> of the handlers is not modelled.)
\<close>

definition getStudents_try :: "browser \<Rightarrow> (json list) completion \<times> browser" where
  "getStudents_try env =
     (if \<not> window_defined env then (Normal [], env)
      else
        (case getItem STORAGE_KEY env of
           (Throw e, env') \<Rightarrow> (Throw e, env')
         | (Unmodelled, env') \<Rightarrow> (Unmodelled, env')
         | (Normal stored, env') \<Rightarrow>
             if \<not> truthy stored then (Normal getDefaultStudents, env')
             else
               (case JSON_parse (case stored of Some text \<Rightarrow> text | None \<Rightarrow> []) of
                  Throw e \<Rightarrow> (Throw e, env')
                | Unmodelled \<Rightarrow> (Unmodelled, env')
                | Normal parsed \<Rightarrow>
                    (Normal (case parsed of JArr xs \<Rightarrow> xs | _ \<Rightarrow> getDefaultStudents), env'))))"

definition getStudents :: "browser \<Rightarrow> (json list) completion \<times> browser" where
  "getStudents env =
     (case getStudents_try env of
        (r, env') \<Rightarrow> (try_catch r (\<lambda>error. Normal getDefaultStudents), env'))"

text \<open>
  \<open>saveStudents(students)\<close>: the body of the \<open>try\<close>, then the \<open>catch\<close>. The argument is an
  array, so \<open>JSON.stringify\<close> gives a text; were it \<open>undefined\<close>, \<open>setItem\<close> would store the
  string "undefined".
\<close>

definition saveStudents_try :: "json list \<Rightarrow> browser \<Rightarrow> bool completion \<times> browser" where
  "saveStudents_try studs env =
     (if \<not> window_defined env then (Normal False, env)
      else
        (case setItem STORAGE_KEY
                (case JSON_stringify (JArr studs) of Some t \<Rightarrow> t | None \<Rightarrow> ''undefined'') env of
           (Throw e, env') \<Rightarrow> (Throw e, env')
         | (Unmodelled, env') \<Rightarrow> (Unmodelled, env')
         | (Normal u, env') \<Rightarrow> (Normal True, env')))"

definition saveStudents :: "json list \<Rightarrow> browser \<Rightarrow> bool completion \<times> browser" where
  "saveStudents studs env =
     (case saveStudents_try studs env of
        (r, env') \<Rightarrow> (try_catch r (\<lambda>error. Normal False), env'))"

definition clearStudents_try :: "browser \<Rightarrow> bool completion \<times> browser" where
  "clearStudents_try env =
     (if \<not> window_defined env then (Normal False, env)
      else
        (case removeItem STORAGE_KEY env of
           (Throw e, env') \<Rightarrow> (Throw e, env')
         | (Unmodelled, env') \<Rightarrow> (Unmodelled, env')
         | (Normal u, env') \<Rightarrow> (Normal True, env')))"

definition clearStudents :: "browser \<Rightarrow> bool completion \<times> browser" where
  "clearStudents env =
     (case clearStudents_try env of
        (r, env') \<Rightarrow> (try_catch r (\<lambda>error. Normal False), env'))"

section \<open>The remote-data simulator (\<open>MockApiService\<close>, the second part of src/lib/student-storage.ts)\<close>

text \<open>
  \<open>mockApiService.validateEmail\<close>: the value its promise resolves to. The delay before it
  resolves is not modelled.
\<close>

definition validateEmail :: "string \<Rightarrow> bool" where
  "validateEmail addr =
     (if \<not> js_includes addr ''@'' then False else regex_test emailRegex addr)"

section \<open>The asynchronous email check of the form (src/components/student-form.tsx)\<close>

text \<open>
  The state the check writes: the two \<open>useState\<close> cells, and the arguments of the calls
  made to \<open>mockApiService.validateEmail\<close>, the latest last. \<open>emailValidationResult\<close> is
  \<open>boolean | null\<close>, with \<open>None\<close> for \<open>null\<close>.
\<close>

record email_check =
  isValidatingEmail :: bool
  emailValidationResult :: "bool option"
  validateEmail_calls :: "string list"

text \<open>
  \<open>validateEmailAsync(email)\<close>, run to the end of its promise; \<open>initialData\<close> is the
  record being edited, \<open>None\<close> when a new record is created. The simulator never rejects,
  so the \<open>catch\<close> is not entered.
\<close>

definition validateEmailAsync :: "student option \<Rightarrow> string \<Rightarrow> email_check \<Rightarrow> email_check" where
  "validateEmailAsync initialData emailValue st =
     (if truthy (validateEmailFormat emailValue) then st\<lparr>emailValidationResult := None\<rparr>
      else if (case initialData of
                 None \<Rightarrow> False
               | Some d \<Rightarrow> truthy (Some (email d))
                   \<and> toLowerCase (trim emailValue) = toLowerCase (trim (email d)))
        then st\<lparr>emailValidationResult := Some True\<rparr>
      else
        (let st1 = st\<lparr>isValidatingEmail := True\<rparr>;
             st2 = st1\<lparr>emailValidationResult := None\<rparr>;
             isValid = validateEmail emailValue;
             st3 = st2\<lparr>validateEmail_calls := validateEmail_calls st2 @ [emailValue]\<rparr>;
             st4 = st3\<lparr>emailValidationResult := Some isValid\<rparr>
         in st4\<lparr>isValidatingEmail := False\<rparr>))"

section \<open>The submission of the form (\<open>handleSubmit\<close>, src/components/student-form.tsx)\<close>

text \<open>
  The state \<open>formData\<close> of the form. In the source its fields are \<open>name\<close>, \<open>email\<close>,
  \<open>course\<close>, \<open>profileImage\<close> and \<open>status\<close>; they carry a prefix here, the plain names being
  the fields of \<open>student\<close>. \<open>profileImage\<close> is a string, empty when no picture is chosen.
\<close>

record form_data =
  formName :: string
  formEmail :: string
  formCourse :: string
  formProfileImage :: string
  formStatus :: student_status

text \<open>
  The object \<open>studentData\<close> that \<open>handleSubmit\<close> builds and hands to \<open>onSubmit\<close> once the form
  is valid. It is an object literal, so its properties are in the order in which they are
  written: \<open>id\<close> first when a record with an id is being edited, then \<open>name\<close>, \<open>email\<close>,
  \<open>course\<close>, \<open>profileImage\<close>, \<open>enrollmentDate\<close> and \<open>status\<close>. The property \<open>profileImage\<close>
  is always there: \<open>formData.profileImage || undefined\<close> gives it the value \<open>undefined\<close> when
  no picture is chosen. \<open>today\<close> is \<open>new Date().toISOString().split("T")[0]\<close>.
\<close>

definition studentData :: "student option \<Rightarrow> form_data \<Rightarrow> string \<Rightarrow> (string \<times> json) list" where
  "studentData initialData formData today =
     (case initialData of
        None \<Rightarrow> []
      | Some d \<Rightarrow> if truthy (Some (sid d)) then [(''id'', JStr (sid d))] else [])
     @ [(''name'', JStr (trim (formName formData))),
        (''email'', JStr (toLowerCase (trim (formEmail formData)))),
        (''course'', JStr (formCourse formData)),
        (''profileImage'',
           if truthy (Some (formProfileImage formData)) then JStr (formProfileImage formData)
           else JUndefined),
        (''enrollmentDate'',
           JStr (case initialData of Some d \<Rightarrow> enrollmentDate d | None \<Rightarrow> today)),
        (''status'', JStr (status_text (formStatus formData)))]"

section \<open>The record browser (src/components/student-list.tsx)\<close>

definition filteredStudents ::
    "student list \<Rightarrow> string \<Rightarrow> string \<Rightarrow> string \<Rightarrow> student list" where
  "filteredStudents studs searchTerm statusFilter courseFilter =
     filter (\<lambda>student.
        let matchesSearch =
              (searchTerm = [] \<or>
               js_includes (toLowerCase (name student)) (toLowerCase searchTerm) \<or>
               js_includes (toLowerCase (email student)) (toLowerCase searchTerm));
            matchesStatus = (statusFilter = ''all'' \<or> status_text (status student) = statusFilter);
            matchesCourse = (courseFilter = ''all'' \<or> course student = courseFilter)
        in matchesSearch \<and> matchesStatus \<and> matchesCourse) studs"

text \<open>
  The search of the specification, in its own words: \<open>needle\<close> occurs in \<open>hay\<close> when letter
  case is ignored, that is, at some position the next characters of \<open>hay\<close> are those of
  \<open>needle\<close> up to case.
\<close>

definition occurs_ignoring_case :: "string \<Rightarrow> string \<Rightarrow> bool" where
  "occurs_ignoring_case needle hay =
     list_ex (\<lambda>i. toLowerCase (take (length needle) (drop i hay)) = toLowerCase needle)
       [0..<Suc (length hay)]"

section \<open>The dashboard controller (src/app/page.tsx)\<close>

subsection \<open>Statistics\<close>

record student_stats =
  total :: nat
  courseDistribution :: "(string \<times> nat) list"
  mostPopularCourse :: string

text \<open>
  The accumulator of the \<open>reduce\<close> is an object literal \<open>{}\<close>, which inherits from
  \<open>Object.prototype\<close>. For a course named like one of the inherited properties,
  \<open>acc[student.course] || 0\<close> reads the inherited property and the count becomes a string
  whose text the engine chooses: such record sets are \<open>Unmodelled\<close>.
\<close>

definition objectPrototypeNames :: "string list" where
  "objectPrototypeNames =
     [''constructor'', ''__defineGetter__'', ''__defineSetter__'', ''hasOwnProperty'',
      ''__lookupGetter__'', ''__lookupSetter__'', ''isPrototypeOf'', ''propertyIsEnumerable'',
      ''toString'', ''valueOf'', ''__proto__'', ''toLocaleString'']"

text \<open>One step of the \<open>reduce\<close>: \<open>acc[student.course] = (acc[student.course] || 0) + 1\<close>.\<close>

definition countCourse :: "(string \<times> nat) list \<Rightarrow> student \<Rightarrow> (string \<times> nat) list" where
  "countCourse acc student =
     obj_set acc (course student)
       ((case obj_get acc (course student) of None \<Rightarrow> 0 | Some n \<Rightarrow> n) + 1)"

text \<open>
  \<open>Object.entries(courseDistribution).sort(([, a], [, b]) => b - a)\<close>: a stable sort into
  descending counts (\<open>Array.prototype.sort\<close> is stable since ECMAScript 2019).
\<close>

definition sortByCountDesc :: "(string \<times> nat) list \<Rightarrow> (string \<times> nat) list" where
  "sortByCountDesc entries = sort_key (\<lambda>e. - int (snd e)) entries"

definition studentStats :: "student list \<Rightarrow> student_stats completion" where
  "studentStats studs =
     (if list_ex (\<lambda>s. course s \<in> set objectPrototypeNames) studs then Unmodelled
      else
        (let totalStudents = length studs;
             distribution = foldl countCourse [] studs
         in Normal \<lparr>total = totalStudents,
                    courseDistribution = distribution,
                    mostPopularCourse =
                      (case sortByCountDesc distribution of
                         [] \<Rightarrow> ''None''
                       | e # es \<Rightarrow> if truthy (Some (fst e)) then fst e else ''None'')\<rparr>))"

text \<open>
  The statistics of the specification, in its own words: the count recorded for a course
  (0 when there is none), and the first entry whose count no other entry exceeds.
\<close>

definition count_in :: "(string \<times> nat) list \<Rightarrow> string \<Rightarrow> nat" where
  "count_in acc c = (case map_of acc c of None \<Rightarrow> 0 | Some n \<Rightarrow> n)"

definition firstMostFrequent :: "(string \<times> nat) list \<Rightarrow> (string \<times> nat) option" where
  "firstMostFrequent entries = find (\<lambda>e. list_all (\<lambda>e'. snd e' \<le> snd e) entries) entries"

subsection \<open>Adding and deleting a record\<close>

text \<open>
  The state of the dashboard that adding and deleting touch: the record array \<open>students\<close>
  and the browser. The array holds the objects themselves, each the list of its own
  properties: it is these objects that \<open>saveStudents\<close> is given.
\<close>

record dashboard =
  students :: "(string \<times> json) list list"
  browser_env :: browser

text \<open>
  \<open>handleAddStudent(studentData)\<close>, with \<open>newData\<close> for its argument and \<open>now\<close> for
  \<open>Date.now().toString()\<close>. The spread \<open>{...studentData, id: now}\<close> defines the properties of
  the argument in their order and then \<open>id\<close>: a new, last property, unless the argument has
  one already. (Nothing in the \<open>try\<close> throws; \<open>setActiveTab\<close> is not modelled.)
\<close>

definition handleAddStudent :: "(string \<times> json) list \<Rightarrow> string \<Rightarrow> dashboard \<Rightarrow> dashboard" where
  "handleAddStudent newData now d =
     (let newStudent = obj_set (make_object newData) ''id'' (JStr now);
          updatedStudents = students d @ [newStudent]
      in d\<lparr>students := updatedStudents,
            browser_env := snd (saveStudents (map JObj updatedStudents) (browser_env d))\<rparr>)"

text \<open>
  \<open>handleDeleteStudent(studentId)\<close>: \<open>students.filter((s) => s.id !== studentId)\<close>, then
  \<open>setStudents\<close> and \<open>saveStudents\<close> of the new array.
\<close>

definition handleDeleteStudent :: "string \<Rightarrow> dashboard \<Rightarrow> dashboard" where
  "handleDeleteStudent studentId d =
     (let updatedStudents = filter (\<lambda>s. get_property s ''id'' \<noteq> JStr studentId) (students d)
      in d\<lparr>students := updatedStudents,
            browser_env := snd (saveStudents (map JObj updatedStudents) (browser_env d))\<rparr>)"

section \<open>Sample data\<close>

text \<open>Concrete browsers, records and states on which the theorems below are exercised.\<close>

definition ssr_env :: browser where
  "ssr_env = \<lparr>window_defined = False, storage_denied = False, storage_full = False,
              items = (\<lambda>k. None), calls = []\<rparr>"

definition fresh_browser :: browser where
  "fresh_browser = \<lparr>window_defined = True, storage_denied = False, storage_full = False,
              items = (\<lambda>k. None), calls = []\<rparr>"

definition denied_browser :: browser where
  "denied_browser = \<lparr>window_defined = True, storage_denied = True, storage_full = False,
              items = (\<lambda>k. None), calls = []\<rparr>"

definition browser_with :: "string option \<Rightarrow> browser" where
  "browser_with stored =
     \<lparr>window_defined = True, storage_denied = False, storage_full = False,
      items = (\<lambda>k. if k = STORAGE_KEY then stored else None), calls = []\<rparr>"

definition alice :: student where
  "alice = \<lparr>sid = ''1'', name = ''Alice'', email = ''alice@example.com'', course = ''CS'',
            profileImage = None, enrollmentDate = ''2024-01-15'', status = Active\<rparr>"

definition bob :: student where
  "bob = \<lparr>sid = ''2'', name = ''Bob'', email = ''bob@example.com'', course = ''DS'',
          profileImage = None, enrollmentDate = ''2024-02-01'', status = Graduated\<rparr>"

definition edited_student :: student where
  "edited_student = \<lparr>sid = ''7'', name = ''Xavier Young'', email = ''x@y.com'',
      course = ''Data Science'', profileImage = None, enrollmentDate = ''2024-03-01'',
      status = Active\<rparr>"

definition idle_check :: email_check where
  "idle_check = \<lparr>isValidatingEmail = False, emailValidationResult = None, validateEmail_calls = []\<rparr>"

definition sample_student :: "string \<Rightarrow> student" where
  "sample_student c = \<lparr>sid = ''1'', name = ''Ann Lee'', email = ''ann@example.com'', course = c,
      profileImage = None, enrollmentDate = ''2024-01-15'', status = Active\<rparr>"

text \<open>
  A dashboard that holds the first record of the sample set, and the same after a student
  without a picture is added through the form.
\<close>

definition sample_form :: form_data where
  "sample_form = \<lparr>formName = '' Dan Brown'', formEmail = ''Dan@Example.com'', formCourse = ''CS'',
      formProfileImage = [], formStatus = Active\<rparr>"

definition first_sample_record :: "(string \<times> json) list" where
  "first_sample_record =
     [(''id'', JStr ''1''), (''name'', JStr ''Alice Johnson''),
      (''email'', JStr ''alice.johnson@email.com''), (''course'', JStr ''Computer Science''),
      (''profileImage'', JStr ''/professional-woman-portrait.png''),
      (''enrollmentDate'', JStr ''2024-01-15''), (''status'', JStr ''active'')]"

definition loaded_dashboard :: dashboard where
  "loaded_dashboard = \<lparr>students = [first_sample_record], browser_env = fresh_browser\<rparr>"

definition sample_dashboard :: dashboard where
  "sample_dashboard =
     handleAddStudent (studentData None sample_form ''2024-03-01'') ''1700000000000''
       loaded_dashboard"

section \<open>Evaluation rules\<close>

lemmas js_char_simps = char_of_def bit_Suc_0_iff

lemmas validator_defs =
  validateName_def validateEmailFormat_def validateCourse_def truthy_def trim_def
  nameRegex_def emailRegex_def nameClass_def notSpaceAt_def isWhiteSpace_def

lemmas storage_defs = getStudents_def getStudents_try_def saveStudents_def saveStudents_try_def
  clearStudents_def clearStudents_try_def getItem_def setItem_def removeItem_def try_catch_def

section \<open>Trimming and the two regular expressions\<close>

lemma trim_empty_iff: "trim s = [] \<longleftrightarrow> list_all isWhiteSpace s"
proof -
  have "(\<forall>x\<in>set (dropWhile isWhiteSpace s). isWhiteSpace x) \<longleftrightarrow> (\<forall>x\<in>set s. isWhiteSpace x)"
  proof
    assume d: "\<forall>x\<in>set (dropWhile isWhiteSpace s). isWhiteSpace x"
    have "set s = set (takeWhile isWhiteSpace s) \<union> set (dropWhile isWhiteSpace s)"
      by (metis set_append takeWhile_dropWhile_id)
    with d show "\<forall>x\<in>set s. isWhiteSpace x"
      by (auto dest: set_takeWhileD)
  next
    assume "\<forall>x\<in>set s. isWhiteSpace x"
    then show "\<forall>x\<in>set (dropWhile isWhiteSpace s). isWhiteSpace x"
      by (auto dest: set_dropWhileD)
  qed
  then show ?thesis
    by (simp add: trim_def dropWhile_eq_Nil_conv list_all_iff)
qed

lemma trim_id:
  assumes "s \<noteq> []" "\<not> isWhiteSpace (hd s)" "\<not> isWhiteSpace (last s)"
  shows "trim s = s"
proof -
  from assms have a: "dropWhile isWhiteSpace s = s"
    by (cases s) auto
  from assms have "dropWhile isWhiteSpace (rev s) = rev s"
    by (cases "rev s") (auto simp: last_rev hd_rev)
  with a show ?thesis by (simp add: trim_def)
qed

lemma regex_many1_only: "regex_test [Many1 p] s \<longleftrightarrow> s \<noteq> [] \<and> list_all p s"
  by (induction s) auto

lemma regex_test_nameRegex: "regex_test nameRegex s \<longleftrightarrow> s \<noteq> [] \<and> list_all nameClass s"
  by (simp add: nameRegex_def regex_many1_only)

lemma regex_many1_then:
  "regex_test (Many1 p # r) s \<longleftrightarrow>
     (\<exists>a b. s = a @ b \<and> a \<noteq> [] \<and> list_all p a \<and> regex_test r b)"
proof (induction s)
  case Nil
  then show ?case by simp
next
  case (Cons c s)
  show ?case
  proof
    assume "regex_test (Many1 p # r) (c # s)"
    then have pc: "p c" and alt: "regex_test (Many1 p # r) s \<or> regex_test r s" by auto
    from alt show "\<exists>a b. c # s = a @ b \<and> a \<noteq> [] \<and> list_all p a \<and> regex_test r b"
    proof
      assume "regex_test (Many1 p # r) s"
      with Cons.IH obtain a b where "s = a @ b" "a \<noteq> []" "list_all p a" "regex_test r b"
        by blast
      with pc have "c # s = (c # a) @ b \<and> c # a \<noteq> [] \<and> list_all p (c # a) \<and> regex_test r b"
        by simp
      then show ?thesis by blast
    next
      assume "regex_test r s"
      with pc have "c # s = [c] @ s \<and> [c] \<noteq> [] \<and> list_all p [c] \<and> regex_test r s" by simp
      then show ?thesis by blast
    qed
  next
    assume "\<exists>a b. c # s = a @ b \<and> a \<noteq> [] \<and> list_all p a \<and> regex_test r b"
    then obtain a b where ab: "c # s = a @ b" "a \<noteq> []" "list_all p a" "regex_test r b"
      by blast
    then obtain a' where a: "a = c # a'" by (cases a) auto
    with ab have s: "s = a' @ b" and pc: "p c" and pa: "list_all p a'" by auto
    show "regex_test (Many1 p # r) (c # s)"
    proof (cases a')
      case Nil
      with s ab pc show ?thesis by simp
    next
      case (Cons x xs)
      with s pa ab have "\<exists>a b. s = a @ b \<and> a \<noteq> [] \<and> list_all p a \<and> regex_test r b" by blast
      with Cons.IH pc show ?thesis by simp
    qed
  qed
qed

lemma regex_one_then:
  "regex_test (One p # r) s \<longleftrightarrow> (\<exists>c b. s = c # b \<and> p c \<and> regex_test r b)"
  by (cases s) auto

text \<open>
  The email pattern: a local part, \<open>@\<close>, a domain, a dot and a last label, each non-empty
  and free of white space and \<open>@\<close>.
\<close>

lemma regex_test_emailRegex:
  "regex_test emailRegex s \<longleftrightarrow>
     (\<exists>l d t. s = l @ ''@'' @ d @ ''.'' @ t \<and> l \<noteq> [] \<and> d \<noteq> [] \<and> t \<noteq> []
        \<and> list_all notSpaceAt l \<and> list_all notSpaceAt d \<and> list_all notSpaceAt t)"
proof
  assume "regex_test emailRegex s"
  then obtain l b1 where 1: "s = l @ b1" "l \<noteq> []" "list_all notSpaceAt l"
    and r1: "regex_test [One (\<lambda>c. c = CHR ''@''), Many1 notSpaceAt,
                         One (\<lambda>c. c = CHR ''.''), Many1 notSpaceAt] b1"
    unfolding emailRegex_def regex_many1_then [of notSpaceAt _ s] by blast
  from r1 obtain b2 where 2: "b1 = CHR ''@'' # b2"
    and r2: "regex_test [Many1 notSpaceAt, One (\<lambda>c. c = CHR ''.''), Many1 notSpaceAt] b2"
    unfolding regex_one_then by blast
  from r2 obtain d b3 where 3: "b2 = d @ b3" "d \<noteq> []" "list_all notSpaceAt d"
    and r3: "regex_test [One (\<lambda>c. c = CHR ''.''), Many1 notSpaceAt] b3"
    unfolding regex_many1_then [of notSpaceAt _ b2] by blast
  from r3 obtain t where 4: "b3 = CHR ''.'' # t" and r4: "regex_test [Many1 notSpaceAt] t"
    unfolding regex_one_then by blast
  from r4 have 5: "t \<noteq> []" "list_all notSpaceAt t" by (simp_all add: regex_many1_only)
  from 1 2 3 4 5
  have "s = l @ ''@'' @ d @ ''.'' @ t \<and> l \<noteq> [] \<and> d \<noteq> [] \<and> t \<noteq> []
        \<and> list_all notSpaceAt l \<and> list_all notSpaceAt d \<and> list_all notSpaceAt t" by simp
  then show "\<exists>l d t. s = l @ ''@'' @ d @ ''.'' @ t \<and> l \<noteq> [] \<and> d \<noteq> [] \<and> t \<noteq> []
        \<and> list_all notSpaceAt l \<and> list_all notSpaceAt d \<and> list_all notSpaceAt t" by blast
next
  assume "\<exists>l d t. s = l @ ''@'' @ d @ ''.'' @ t \<and> l \<noteq> [] \<and> d \<noteq> [] \<and> t \<noteq> []
        \<and> list_all notSpaceAt l \<and> list_all notSpaceAt d \<and> list_all notSpaceAt t"
  then obtain l d t where s: "s = l @ ''@'' @ d @ ''.'' @ t"
    and ne: "l \<noteq> []" "d \<noteq> []" "t \<noteq> []"
    and cl: "list_all notSpaceAt l" "list_all notSpaceAt d" "list_all notSpaceAt t" by blast
  have r4: "regex_test [Many1 notSpaceAt] t" using ne cl by (simp add: regex_many1_only)
  then have r3: "regex_test [One (\<lambda>c. c = CHR ''.''), Many1 notSpaceAt] (''.'' @ t)" by simp
  have r2: "regex_test [Many1 notSpaceAt, One (\<lambda>c. c = CHR ''.''), Many1 notSpaceAt]
              (d @ ''.'' @ t)"
    unfolding regex_many1_then [of notSpaceAt _ "d @ ''.'' @ t"] using ne cl r3 by blast
  then have r1: "regex_test [One (\<lambda>c. c = CHR ''@''), Many1 notSpaceAt,
                           One (\<lambda>c. c = CHR ''.''), Many1 notSpaceAt] (''@'' @ d @ ''.'' @ t)"
    by simp
  show "regex_test emailRegex s"
    unfolding emailRegex_def s regex_many1_then [of notSpaceAt _ "l @ ''@'' @ d @ ''.'' @ t"]
    using ne cl r1 by blast
qed

lemma trim_no_space: "list_all (\<lambda>c. \<not> isWhiteSpace c) e \<Longrightarrow> trim e = e"
proof -
  assume a: "list_all (\<lambda>c. \<not> isWhiteSpace c) e"
  then have 1: "dropWhile isWhiteSpace e = e" by (cases e) auto
  from a have "list_all (\<lambda>c. \<not> isWhiteSpace c) (rev e)" by (simp add: list_all_iff)
  then have "dropWhile isWhiteSpace (rev e) = rev e" by (cases "rev e") auto
  with 1 show ?thesis by (simp add: trim_def)
qed

lemma emailRegex_no_space:
  assumes "regex_test emailRegex e"
  shows "e \<noteq> [] \<and> list_all (\<lambda>c. \<not> isWhiteSpace c) e"
proof -
  from assms obtain l d t where e: "e = l @ ''@'' @ d @ ''.'' @ t"
    and c: "list_all notSpaceAt l" "list_all notSpaceAt d" "list_all notSpaceAt t"
    unfolding regex_test_emailRegex by blast
  have n: "list_all notSpaceAt x \<Longrightarrow> list_all (\<lambda>c. \<not> isWhiteSpace c) x" for x
    by (simp add: list_all_iff notSpaceAt_def)
  have "\<not> isWhiteSpace (CHR ''@'')" "\<not> isWhiteSpace (CHR ''.'')"
    by (simp_all add: isWhiteSpace_def)
  with c n show ?thesis unfolding e by simp
qed

section \<open>The name validator\<close>

text \<open>
  C7, as the code has it. The four checks of \<open>validateName\<close> run in a fixed order on the
  trimmed name, and the first that fails decides the message: "required" when the name is
  empty or all white space; otherwise "too short" when the trimmed name has fewer than 2
  characters; otherwise "too long" when it has more than 50; otherwise "invalid characters"
  when it holds a character other than the letters a-z and A-Z, white space, the hyphen and
  the apostrophe; otherwise no error. So a name with a digit gets the invalid-characters
  message only when its trimmed length is between 2 and 50, and a name of 51 characters gets
  the too-long message when it neither starts nor ends with white space. The examples of
  the claim: "Al" and "Jean-Luc O'Brien" pass, "A" is too short, "John123" has invalid
  characters, the empty string is required.
\<close>

theorem validateName_order_of_checks:
  "validateName n =
     (if list_all isWhiteSpace n then Some ''Name is required''
      else if length (trim n) < 2 then Some ''Name must be at least 2 characters long''
      else if 50 < length (trim n) then Some ''Name must be less than 50 characters''
      else if list_ex (\<lambda>c. \<not> nameClass c) (trim n)
        then Some ''Name can only contain letters, spaces, hyphens, and apostrophes''
      else None)
   \<and> (length n = 51 \<and> \<not> isWhiteSpace (hd n) \<and> \<not> isWhiteSpace (last n)
        \<longrightarrow> validateName n = Some ''Name must be less than 50 characters'')
   \<and> validateName ''Al'' = None
   \<and> validateName ''Jean-Luc O'Brien'' = None
   \<and> validateName ''A'' = Some ''Name must be at least 2 characters long''
   \<and> validateName ''John123''
       = Some ''Name can only contain letters, spaces, hyphens, and apostrophes''
   \<and> validateName [] = Some ''Name is required''"
proof -
  have chain: "validateName n =
     (if list_all isWhiteSpace n then Some ''Name is required''
      else if length (trim n) < 2 then Some ''Name must be at least 2 characters long''
      else if 50 < length (trim n) then Some ''Name must be less than 50 characters''
      else if list_ex (\<lambda>c. \<not> nameClass c) (trim n)
        then Some ''Name can only contain letters, spaces, hyphens, and apostrophes''
      else None)"
    by (auto simp: validateName_def truthy_def trim_empty_iff regex_test_nameRegex
        list_all_iff list_ex_iff)
  have long: "validateName n = Some ''Name must be less than 50 characters''"
    if "length n = 51" "\<not> isWhiteSpace (hd n)" "\<not> isWhiteSpace (last n)"
  proof -
    from that have ne: "n \<noteq> []" by auto
    with that have "trim n = n" by (simp add: trim_id)
    with that ne show ?thesis by (simp add: validateName_def truthy_def)
  qed
  have ex: "validateName ''Al'' = None"
    "validateName ''Jean-Luc O'Brien'' = None"
    "validateName ''A'' = Some ''Name must be at least 2 characters long''"
    "validateName ''John123''
       = Some ''Name can only contain letters, spaces, hyphens, and apostrophes''"
    "validateName [] = Some ''Name is required''"
    by (simp_all add: validator_defs)
  from chain long ex show ?thesis by blast
qed

theorem validateName_order_of_checks_witness:
  "validateName (replicate 51 (CHR ''x'')) = Some ''Name must be less than 50 characters''"
proof -
  have "length (replicate 51 (CHR ''x'')) = 51
      \<and> \<not> isWhiteSpace (hd (replicate 51 (CHR ''x'')))
      \<and> \<not> isWhiteSpace (last (replicate 51 (CHR ''x'')))"
    by (simp add: isWhiteSpace_def)
  with validateName_order_of_checks [of "replicate 51 (CHR ''x'')"] show ?thesis by blast
qed

text \<open>
  C7 as stated fails in three places: the name "1" holds a character that is no letter,
  yet its message is the too-short one; the 51-character name of fifty letters and a
  trailing space is accepted; and so is a name with a TAB between two letters.
\<close>

theorem validateName_counterexample:
  "validateName ''1'' = Some ''Name must be at least 2 characters long''
   \<and> validateName (replicate 50 (CHR ''a'') @ '' '') = None
   \<and> validateName [CHR ''A'', CHR 0x09, CHR ''B''] = None"
  by code_simp

section \<open>The email format validator\<close>

text \<open>
  C8. \<open>validateEmailFormat\<close> accepts "a@b.co", rejects "no-at-sign.com" with the format
  message, and rejects the empty string with the message "Email is required", not the
  format message.
\<close>

theorem validateEmailFormat_examples:
  "validateEmailFormat ''a@b.co'' = None
   \<and> validateEmailFormat ''no-at-sign.com'' = Some ''Please enter a valid email address''
   \<and> validateEmailFormat [] = Some ''Email is required''"
  by (simp add: validator_defs)

text \<open>In general: "required" for an all-white-space input, else the pattern decides.\<close>

lemma validateEmailFormat_cases:
  "validateEmailFormat e =
     (if list_all isWhiteSpace e then Some ''Email is required''
      else if regex_test emailRegex e then None
      else Some ''Please enter a valid email address'')"
  by (simp add: validateEmailFormat_def truthy_def trim_empty_iff)

section \<open>The asynchronous email check\<close>

lemma validateEmailFormat_messages: "validateEmailFormat e = Some m \<Longrightarrow> m \<noteq> []"
  by (auto simp: validateEmailFormat_def split: if_splits)

lemma truthy_validateEmailFormat: "truthy (validateEmailFormat e) \<longleftrightarrow> validateEmailFormat e \<noteq> None"
  by (cases "validateEmailFormat e") (auto simp: truthy_def dest: validateEmailFormat_messages)

lemma validateEmailFormat_None_trim:
  "validateEmailFormat e = None \<Longrightarrow> trim e = e \<and> e \<noteq> []"
proof -
  assume "validateEmailFormat e = None"
  then have "regex_test emailRegex e" by (simp add: validateEmailFormat_def split: if_splits)
  then have "e \<noteq> []" "list_all (\<lambda>c. \<not> isWhiteSpace c) e"
    using emailRegex_no_space by blast+
  then show ?thesis by (simp add: trim_no_space)
qed


text \<open>
  C3, as the code has it. \<open>validateEmailAsync\<close> first applies the format check to the
  input as typed, and only then compares it, trimmed and lower-cased, with the stored
  email. So for a record opened for editing and an input that equals the stored email up
  to letter case and surrounding white space, the simulator is never called and the
  validating flag is untouched; the availability result is \<open>true\<close> when the input passes
  the format check (any letter case, no white space), and \<open>null\<close> when it does not, which
  is the case for every input with white space around it.
\<close>

theorem validateEmailAsync_unchanged_email:
  "toLowerCase (trim e) = toLowerCase (trim (email d)) \<longrightarrow>
     validateEmail_calls (validateEmailAsync (Some d) e st) = validateEmail_calls st
     \<and> isValidatingEmail (validateEmailAsync (Some d) e st) = isValidatingEmail st
     \<and> emailValidationResult (validateEmailAsync (Some d) e st)
         = (if validateEmailFormat e = None then Some True else None)
     \<and> (trim e \<noteq> e \<longrightarrow> emailValidationResult (validateEmailAsync (Some d) e st) = None)"
proof
  assume eq: "toLowerCase (trim e) = toLowerCase (trim (email d))"
  show "validateEmail_calls (validateEmailAsync (Some d) e st) = validateEmail_calls st
     \<and> isValidatingEmail (validateEmailAsync (Some d) e st) = isValidatingEmail st
     \<and> emailValidationResult (validateEmailAsync (Some d) e st)
         = (if validateEmailFormat e = None then Some True else None)
     \<and> (trim e \<noteq> e \<longrightarrow> emailValidationResult (validateEmailAsync (Some d) e st) = None)"
  proof (cases "validateEmailFormat e")
    case None
    then have t: "trim e = e" "e \<noteq> []" by (auto dest: validateEmailFormat_None_trim)
    with eq have "toLowerCase (trim (email d)) \<noteq> []" by (auto simp: toLowerCase_def)
    then have "email d \<noteq> []" by (auto simp: toLowerCase_def trim_def)
    then have tr: "truthy (Some (email d))" by (simp add: truthy_def)
    have nt: "\<not> truthy (validateEmailFormat e)" using None by (simp add: truthy_def)
    show ?thesis
      unfolding validateEmailAsync_def using nt tr eq t None by simp
  next
    case (Some m)
    then have "truthy (Some m)" by (simp add: truthy_def validateEmailFormat_messages)
    with Some show ?thesis
      by (simp add: validateEmailAsync_def)
  qed
qed

theorem validateEmailAsync_unchanged_email_witness:
  "emailValidationResult (validateEmailAsync (Some edited_student) ''X@Y.Com'' idle_check) = Some True
   \<and> validateEmail_calls (validateEmailAsync (Some edited_student) ''X@Y.Com'' idle_check) = []"
proof -
  have h: "toLowerCase (trim ''X@Y.Com'') = toLowerCase (trim (email edited_student))"
    by (simp add: edited_student_def toLowerCase_def toLowerChar_def trim_def isWhiteSpace_def js_char_simps)
  have f: "validateEmailFormat ''X@Y.Com'' = None" by (simp add: validator_defs)
  have c: "validateEmail_calls idle_check = []" by (simp add: idle_check_def)
  from validateEmailAsync_unchanged_email [of "''X@Y.Com''" edited_student idle_check] h
  have "validateEmail_calls (validateEmailAsync (Some edited_student) ''X@Y.Com'' idle_check) = validateEmail_calls idle_check
     \<and> emailValidationResult (validateEmailAsync (Some edited_student) ''X@Y.Com'' idle_check)
         = (if validateEmailFormat ''X@Y.Com'' = None then Some True else None)"
    by blast
  then show ?thesis unfolding f c by simp
qed


text \<open>
  C3 as stated fails for an input with surrounding white space: for the stored email
  "x@y.com" and the input " X@Y.com ", equal after trimming and lower-casing, the result
  is \<open>null\<close>, not \<open>true\<close>.
\<close>

theorem validateEmailAsync_whitespace_counterexample:
  "emailValidationResult (validateEmailAsync (Some edited_student) '' X@Y.com '' idle_check) = None
   \<and> toLowerCase (trim '' X@Y.com '') = toLowerCase (trim (email edited_student))"
proof -
  have g: "validateEmailFormat '' X@Y.com '' = Some ''Please enter a valid email address''"
    by (simp add: validator_defs)
  have 1: "emailValidationResult (validateEmailAsync (Some edited_student) '' X@Y.com '' idle_check) = None"
    unfolding validateEmailAsync_def g by (simp add: truthy_def)
  have 2: "toLowerCase (trim '' X@Y.com '') = toLowerCase (trim (email edited_student))"
    by (simp add: edited_student_def toLowerCase_def toLowerChar_def trim_def isWhiteSpace_def js_char_simps)
  from 1 2 show ?thesis by simp
qed


section \<open>Filtering the list\<close>

lemma startsWith_iff: "startsWith s n \<longleftrightarrow> take (length n) s = n"
  by (induction s n rule: startsWith.induct) auto

lemma js_includes_iff: "js_includes s n \<longleftrightarrow> (\<exists>i\<le>length s. take (length n) (drop i s) = n)"
proof (induction s)
  case Nil
  then show ?case by auto
next
  case (Cons a s)
  have "(\<exists>i\<le>length (a # s). take (length n) (drop i (a # s)) = n)
        \<longleftrightarrow> take (length n) (a # s) = n \<or> (\<exists>i\<le>length s. take (length n) (drop i s) = n)"
  proof
    assume "\<exists>i\<le>length (a # s). take (length n) (drop i (a # s)) = n"
    then obtain i where i: "i \<le> length (a # s)" "take (length n) (drop i (a # s)) = n" by blast
    show "take (length n) (a # s) = n \<or> (\<exists>i\<le>length s. take (length n) (drop i s) = n)"
    proof (cases i)
      case 0
      with i show ?thesis by simp
    next
      case (Suc j)
      with i have "j \<le> length s \<and> take (length n) (drop j s) = n" by simp
      then show ?thesis by blast
    qed
  next
    assume "take (length n) (a # s) = n \<or> (\<exists>i\<le>length s. take (length n) (drop i s) = n)"
    then show "\<exists>i\<le>length (a # s). take (length n) (drop i (a # s)) = n"
    proof
      assume "take (length n) (a # s) = n"
      then have "0 \<le> length (a # s) \<and> take (length n) (drop 0 (a # s)) = n" by simp
      then show ?thesis by blast
    next
      assume "\<exists>i\<le>length s. take (length n) (drop i s) = n"
      then obtain i where "i \<le> length s" "take (length n) (drop i s) = n" by blast
      then have "Suc i \<le> length (a # s) \<and> take (length n) (drop (Suc i) (a # s)) = n" by simp
      then show ?thesis by blast
    qed
  qed
  with Cons show ?case by (simp add: startsWith_iff)
qed

lemma list_ex_upto: "list_ex P [0..<Suc n] \<longleftrightarrow> (\<exists>i\<le>n. P i)"
  by (auto simp: list_ex_iff less_Suc_eq_le simp del: upt_Suc)

lemma includes_lower_iff:
  "js_includes (toLowerCase hay) (toLowerCase needle) \<longleftrightarrow> occurs_ignoring_case needle hay"
  by (simp add: js_includes_iff occurs_ignoring_case_def toLowerCase_def list_ex_upto
      take_map drop_map del: upt_Suc)


text \<open>The same, as a factor of the text.\<close>

lemma occurs_ignoring_case_factor:
  "occurs_ignoring_case needle hay \<longleftrightarrow>
     (\<exists>pre mid post. hay = pre @ mid @ post \<and> toLowerCase mid = toLowerCase needle)"
proof
  assume "occurs_ignoring_case needle hay"
  then obtain i where i: "i \<le> length hay"
      "toLowerCase (take (length needle) (drop i hay)) = toLowerCase needle"
    by (auto simp: occurs_ignoring_case_def list_ex_upto simp del: upt_Suc)
  have "hay = take i hay @ drop i hay" by simp
  also have "drop i hay = take (length needle) (drop i hay) @ drop (length needle) (drop i hay)"
    by (simp only: append_take_drop_id)
  finally have "hay = take i hay @ take (length needle) (drop i hay) @ drop (length needle) (drop i hay)" .
  with i show "\<exists>pre mid post. hay = pre @ mid @ post \<and> toLowerCase mid = toLowerCase needle"
    by blast
next
  assume "\<exists>pre mid post. hay = pre @ mid @ post \<and> toLowerCase mid = toLowerCase needle"
  then obtain pre mid post where h: "hay = pre @ mid @ post"
    and m: "toLowerCase mid = toLowerCase needle" by blast
  from m have "length mid = length needle" by (metis length_map toLowerCase_def)
  with h m have "length pre \<le> length hay
     \<and> toLowerCase (take (length needle) (drop (length pre) hay)) = toLowerCase needle"
    by simp
  then show "occurs_ignoring_case needle hay"
    by (auto simp: occurs_ignoring_case_def list_ex_upto simp del: upt_Suc)
qed


text \<open>
  C6. \<open>filteredStudents\<close> keeps, in their order, exactly the records that satisfy all
  three filters: the search term is empty or occurs in the name or in the email when case
  is ignored; the status filter is "all" or is the record's status; the course filter is
  "all" or is the record's course. For two records named Alice (active, CS) and Bob
  (graduated, DS), whatever their other fields, the status filter "active" alone yields
  exactly Alice; the search "bob" alone yields exactly Bob, provided "bob" does not occur
  in Alice's email (the search also looks there).
\<close>

theorem filteredStudents_conjunction:
  "filteredStudents S q st co =
     filter (\<lambda>s. (q = [] \<or> occurs_ignoring_case q (name s) \<or> occurs_ignoring_case q (email s))
                \<and> (st = ''all'' \<or> status_text (status s) = st)
                \<and> (co = ''all'' \<or> course s = co)) S
   \<and> filteredStudents
        [a\<lparr>name := ''Alice'', status := Active, course := ''CS''\<rparr>,
         b\<lparr>name := ''Bob'', status := Graduated, course := ''DS''\<rparr>] [] ''active'' ''all''
       = [a\<lparr>name := ''Alice'', status := Active, course := ''CS''\<rparr>]
   \<and> (\<not> occurs_ignoring_case ''bob'' (email a) \<longrightarrow>
        filteredStudents
          [a\<lparr>name := ''Alice'', status := Active, course := ''CS''\<rparr>,
           b\<lparr>name := ''Bob'', status := Graduated, course := ''DS''\<rparr>] ''bob'' ''all'' ''all''
         = [b\<lparr>name := ''Bob'', status := Graduated, course := ''DS''\<rparr>])"
proof -
  have gen: "filteredStudents S q st co =
     filter (\<lambda>s. (q = [] \<or> occurs_ignoring_case q (name s) \<or> occurs_ignoring_case q (email s))
                \<and> (st = ''all'' \<or> status_text (status s) = st)
                \<and> (co = ''all'' \<or> course s = co)) S" for S q st co
    by (simp add: filteredStudents_def Let_def includes_lower_iff)
  have 1: "filteredStudents
        [a\<lparr>name := ''Alice'', status := Active, course := ''CS''\<rparr>,
         b\<lparr>name := ''Bob'', status := Graduated, course := ''DS''\<rparr>] [] ''active'' ''all''
       = [a\<lparr>name := ''Alice'', status := Active, course := ''CS''\<rparr>]"
    by (simp add: gen status_text_def)
  have al: "\<not> occurs_ignoring_case ''bob'' ''Alice''"
    unfolding includes_lower_iff [symmetric]
    by (simp add: toLowerCase_def toLowerChar_def js_char_simps)
  have bo: "occurs_ignoring_case ''bob'' ''Bob''"
    unfolding includes_lower_iff [symmetric]
    by (simp add: toLowerCase_def toLowerChar_def js_char_simps)
  have 2: "filteredStudents
          [a\<lparr>name := ''Alice'', status := Active, course := ''CS''\<rparr>,
           b\<lparr>name := ''Bob'', status := Graduated, course := ''DS''\<rparr>] ''bob'' ''all'' ''all''
         = [b\<lparr>name := ''Bob'', status := Graduated, course := ''DS''\<rparr>]"
    if "\<not> occurs_ignoring_case ''bob'' (email a)"
    using that al bo by (simp add: gen)
  from gen 1 2 show ?thesis by blast
qed

theorem filteredStudents_conjunction_witness:
  "filteredStudents [alice, bob] ''bob'' ''all'' ''all'' = [bob]"
proof -
  have h: "\<not> occurs_ignoring_case ''bob'' (email alice)"
    unfolding includes_lower_iff [symmetric]
    by (simp add: alice_def toLowerCase_def toLowerChar_def js_char_simps)
  have a: "alice\<lparr>name := ''Alice'', status := Active, course := ''CS''\<rparr> = alice"
    by (simp add: alice_def)
  have b: "bob\<lparr>name := ''Bob'', status := Graduated, course := ''DS''\<rparr> = bob"
    by (simp add: bob_def)
  from filteredStudents_conjunction [of _ _ _ _ alice bob] h
  have "filteredStudents
          [alice\<lparr>name := ''Alice'', status := Active, course := ''CS''\<rparr>,
           bob\<lparr>name := ''Bob'', status := Graduated, course := ''DS''\<rparr>] ''bob'' ''all'' ''all''
         = [bob\<lparr>name := ''Bob'', status := Graduated, course := ''DS''\<rparr>]"
    by blast
  then show ?thesis unfolding a b .
qed


section \<open>Array indices as numbers\<close>

lemma decimalValue_foldl:
  "foldl (\<lambda>n c. 10 * n + (of_char c - 48)) n s = n * 10 ^ length s + decimalValue s"
proof (induction s arbitrary: n)
  case Nil
  then show ?case by (simp add: decimalValue_def)
next
  case (Cons c s)
  have "decimalValue (c # s) = foldl (\<lambda>n c. 10 * n + (of_char c - 48)) (of_char c - 48) s"
    by (simp add: decimalValue_def)
  also have "\<dots> = (of_char c - 48) * 10 ^ length s + decimalValue s" by (rule Cons.IH)
  finally have v: "decimalValue (c # s) = (of_char c - 48) * 10 ^ length s + decimalValue s" .
  have "foldl (\<lambda>n c. 10 * n + (of_char c - 48)) n (c # s)
      = (10 * n + (of_char c - 48)) * 10 ^ length s + decimalValue s"
    by (simp add: Cons.IH)
  with v show ?case by (simp add: algebra_simps)
qed

lemma decimalValue_Cons:
  "decimalValue (c # s) = (of_char c - 48) * 10 ^ length s + decimalValue s"
  using decimalValue_foldl [of "of_char c - 48" s] by (simp add: decimalValue_def)

lemma digit_code: "isDigit c \<Longrightarrow> 48 \<le> (of_char c :: nat) \<and> (of_char c :: nat) \<le> 57"
  by (simp add: isDigit_def less_eq_char_def)

lemma decimalValue_less: "list_all isDigit s \<Longrightarrow> decimalValue s < 10 ^ length s"
proof (induction s)
  case Nil
  then show ?case by (simp add: decimalValue_def)
next
  case (Cons c s)
  then have "isDigit c" by simp
  then have d: "(of_char c :: nat) - 48 \<le> 9" using digit_code [of c] by arith
  from Cons have "decimalValue s < 10 ^ length s" by simp
  moreover from d have "(of_char c - 48) * 10 ^ length s \<le> 9 * (10::nat) ^ length s"
    by (rule mult_le_mono1)
  ultimately have "(of_char c - 48) * 10 ^ length s + decimalValue s
      < 9 * (10::nat) ^ length s + 10 ^ length s"
    by linarith
  then show ?case by (simp add: decimalValue_Cons)
qed

lemma decimalValue_ge:
  assumes "list_all isDigit s" "s \<noteq> []" "hd s \<noteq> CHR ''0''"
  shows "10 ^ (length s - 1) \<le> decimalValue s"
proof -
  from assms(2) obtain c r where s: "s = c # r" by (cases s) auto
  with assms have "isDigit c" "c \<noteq> CHR ''0''" by simp_all
  have "(of_char c :: nat) \<noteq> 48"
  proof
    assume "(of_char c :: nat) = 48"
    moreover have "(of_char (CHR ''0'') :: nat) = 48" by simp
    ultimately have "(of_char c :: nat) = of_char (CHR ''0'')" by simp
    then have "c = CHR ''0''" by (simp only: of_char_eq_iff)
    with \<open>c \<noteq> CHR ''0''\<close> show False by simp
  qed
  with digit_code [OF \<open>isDigit c\<close>] have "49 \<le> (of_char c :: nat)" by arith
  then have "1 \<le> (of_char c :: nat) - 48" by simp
  then have e: "1 * 10 ^ length r \<le> (of_char c - 48) * (10::nat) ^ length r"
    by (rule mult_le_mono1)
  have l: "length s - 1 = length r" by (simp add: s)
  show ?thesis unfolding l unfolding s decimalValue_Cons using e by linarith
qed


lemma lexLess_decimalValue:
  "length a = length b \<Longrightarrow> list_all isDigit a \<Longrightarrow> list_all isDigit b \<Longrightarrow> lexLess a b \<Longrightarrow>
     decimalValue a < decimalValue b"
proof (induction a b rule: list_induct2)
  case Nil
  then show ?case by simp
next
  case (Cons x xs y ys)
  from Cons.prems have dx: "isDigit x" and dy: "isDigit y"
    and dxs: "list_all isDigit xs" and dys: "list_all isDigit ys" by simp_all
  from Cons.prems have "x < y \<or> (x = y \<and> lexLess xs ys)" by simp
  then show ?case
  proof
    assume "x < y"
    then have "(of_char x :: nat) < of_char y" by (simp add: less_char_def)
    with digit_code [OF dx] have "(of_char x - 48) + 1 \<le> (of_char y :: nat) - 48" by arith
    then have "((of_char x - 48) + 1) * 10 ^ length xs \<le> (of_char y - 48) * (10::nat) ^ length xs"
      by (rule mult_le_mono1)
    then have "(of_char x - 48) * 10 ^ length xs + 10 ^ length xs
        \<le> (of_char y - 48) * (10::nat) ^ length xs"
      by (simp add: algebra_simps)
    moreover from dxs have "decimalValue xs < 10 ^ length xs" by (rule decimalValue_less)
    ultimately have "(of_char x - 48) * 10 ^ length xs + decimalValue xs
        < (of_char y - 48) * (10::nat) ^ length xs + decimalValue ys"
      by linarith
    with Cons.hyps show ?thesis by (simp add: decimalValue_Cons)
  next
    assume "x = y \<and> lexLess xs ys"
    with Cons.IH dxs dys have "decimalValue xs < decimalValue ys" by simp
    with \<open>x = y \<and> lexLess xs ys\<close> Cons.hyps show ?thesis by (simp add: decimalValue_Cons)
  qed
qed

lemma lexLess_trichotomy: "length a = length b \<Longrightarrow> a = b \<or> lexLess a b \<or> lexLess b a"
  by (induction a b rule: list_induct2) auto

lemma indexLess_trichotomy: "a = b \<or> indexLess a b \<or> indexLess b a"
  using lexLess_trichotomy [of a b] by (auto simp: indexLess_def)

lemma indexLess_decimalValue:
  assumes "canonicalNumeric a" "canonicalNumeric b" "indexLess a b"
  shows "decimalValue a < decimalValue b"
proof -
  from assms(1,2) have da: "list_all isDigit a" and db: "list_all isDigit b"
    by (simp_all add: canonicalNumeric_def)
  from assms(3) consider (shorter) "length a < length b"
    | (same) "length a = length b" "lexLess a b"
    by (auto simp: indexLess_def)
  then show ?thesis
  proof cases
    case shorter
    from assms(1) have "a \<noteq> []" by (simp add: canonicalNumeric_def)
    with shorter have "2 \<le> length b" by (cases a) auto
    then have "b \<noteq> ''0''" "b \<noteq> []" by auto
    with assms(2) have "hd b \<noteq> CHR ''0''" by (simp add: canonicalNumeric_def)
    with db \<open>b \<noteq> []\<close> have "10 ^ (length b - 1) \<le> decimalValue b" by (rule decimalValue_ge)
    moreover from shorter have "(10::nat) ^ length a \<le> 10 ^ (length b - 1)"
      by (intro power_increasing) simp_all
    moreover from da have "decimalValue a < 10 ^ length a" by (rule decimalValue_less)
    ultimately show ?thesis by linarith
  next
    case same
    from same(1) da db same(2) show ?thesis by (rule lexLess_decimalValue)
  qed
qed

lemma indexLess_iff:
  assumes "canonicalNumeric a" "canonicalNumeric b"
  shows "indexLess a b \<longleftrightarrow> decimalValue a < decimalValue b"
proof
  assume "indexLess a b"
  with assms show "decimalValue a < decimalValue b" by (rule indexLess_decimalValue)
next
  assume l: "decimalValue a < decimalValue b"
  from indexLess_trichotomy [of a b] show "indexLess a b"
  proof (elim disjE)
    assume "a = b"
    with l show ?thesis by simp
  next
    assume "indexLess b a"
    with assms(2,1) have "decimalValue b < decimalValue a" by (rule indexLess_decimalValue)
    with l show ?thesis by simp
  qed
qed

lemma decimalValue_inj:
  assumes "canonicalNumeric a" "canonicalNumeric b" "decimalValue a = decimalValue b"
  shows "a = b"
proof -
  from indexLess_trichotomy [of a b] show ?thesis
  proof (elim disjE)
    assume "indexLess a b"
    with assms(1,2) have "decimalValue a < decimalValue b" by (rule indexLess_decimalValue)
    with assms(3) show ?thesis by simp
  next
    assume "indexLess b a"
    with assms(2,1) have "decimalValue b < decimalValue a" by (rule indexLess_decimalValue)
    with assms(3) show ?thesis by simp
  qed
qed

lemma isArrayIndex_canonical: "isArrayIndex k \<Longrightarrow> canonicalNumeric k"
  by (simp add: isArrayIndex_def canonicalNumeric_def)

text \<open>An array index is a canonical numeric string that denotes a number below \<open>2^32 - 1\<close>.\<close>

lemma isArrayIndex_numeric:
  "isArrayIndex k \<longleftrightarrow> canonicalNumeric k \<and> decimalValue k < 2 ^ 32 - 1"
proof -
  have c: "canonicalNumeric ''4294967295''"
    by (simp add: canonicalNumeric_def isDigit_def)
  have v: "decimalValue ''4294967295'' = 2 ^ 32 - 1"
    by (simp add: decimalValue_def)
  have "isArrayIndex k \<longleftrightarrow> canonicalNumeric k \<and> indexLess k ''4294967295''"
    by (auto simp: isArrayIndex_def canonicalNumeric_def)
  also have "\<dots> \<longleftrightarrow> canonicalNumeric k \<and> decimalValue k < 2 ^ 32 - 1"
    using indexLess_iff [OF _ c, of k] by (auto simp: v)
  finally show ?thesis .
qed

lemma isArrayIndex_less:
  "isArrayIndex a \<Longrightarrow> isArrayIndex b \<Longrightarrow> indexLess a b \<longleftrightarrow> decimalValue a < decimalValue b"
  by (intro indexLess_iff isArrayIndex_canonical)


section \<open>Objects as property lists\<close>

lemma keys_insertIndexKey: "set (map fst (insertIndexKey k v ps)) = insert k (set (map fst ps))"
  by (induction ps) auto

lemma distinct_insertIndexKey:
  "k \<notin> set (map fst ps) \<Longrightarrow> distinct (map fst ps) \<Longrightarrow> distinct (map fst (insertIndexKey k v ps))"
proof (induction ps)
  case Nil
  then show ?case by simp
next
  case (Cons p ps)
  then have "fst p \<notin> set (map fst (insertIndexKey k v ps))"
    by (simp only: keys_insertIndexKey) auto
  with Cons show ?case by auto
qed

lemma map_of_insertIndexKey:
  "k \<notin> set (map fst ps) \<Longrightarrow> map_of (insertIndexKey k v ps) = (map_of ps)(k \<mapsto> v)"
  by (induction ps) (auto simp: fun_eq_iff)

lemma map_of_replace_at:
  "map_of (map (\<lambda>p. if fst p = k then (k, v) else p) ps) x
     = (if x = k \<and> map_of ps k \<noteq> None then Some v else map_of ps x)"
  by (induction ps) auto

lemma map_of_replace:
  "k \<in> set (map fst ps) \<Longrightarrow>
     map_of (map (\<lambda>p. if fst p = k then (k, v) else p) ps) = (map_of ps)(k \<mapsto> v)"
proof (rule ext)
  fix x
  assume "k \<in> set (map fst ps)"
  then have "map_of ps k \<noteq> None" by (simp add: map_of_eq_None_iff)
  then show "map_of (map (\<lambda>p. if fst p = k then (k, v) else p) ps) x = ((map_of ps)(k \<mapsto> v)) x"
    by (simp add: map_of_replace_at)
qed

lemma keys_replace: "map fst (map (\<lambda>p. if fst p = k then (k, v) else p) ps) = map fst ps"
  by (induction ps) auto

lemma keys_obj_set: "set (map fst (obj_set ps k v)) = insert k (set (map fst ps))"
  unfolding obj_set_def
  by (simp only: keys_replace keys_insertIndexKey split: if_split) auto

lemma distinct_obj_set: "distinct (map fst ps) \<Longrightarrow> distinct (map fst (obj_set ps k v))"
  unfolding obj_set_def
  by (simp only: keys_replace split: if_split) (auto simp: distinct_insertIndexKey)

lemma map_of_obj_set: "map_of (obj_set ps k v) = (map_of ps)(k \<mapsto> v)"
proof (cases "k \<in> set (map fst ps)")
  case True
  then show ?thesis by (simp only: obj_set_def map_of_replace if_True)
next
  case False
  then have "map_of ps k = None" by (simp add: map_of_eq_None_iff)
  then have "map_of (ps @ [(k, v)]) = (map_of ps)(k \<mapsto> v)"
    by (auto simp: fun_eq_iff map_add_def split: option.splits)
  with False show ?thesis by (simp add: obj_set_def map_of_insertIndexKey)
qed

lemma keys_obj_set_order:
  "\<not> isArrayIndex k \<Longrightarrow>
     map fst (obj_set ps k v) = (if k \<in> set (map fst ps) then map fst ps else map fst ps @ [k])"
  unfolding obj_set_def by (simp only: keys_replace split: if_split) auto


subsection \<open>The order of the property names\<close>

lemma set_firstOccurrences: "set (firstOccurrences xs) = set xs"
  by (induction xs) auto

lemma distinct_firstOccurrences: "distinct (firstOccurrences xs)"
  by (induction xs) (auto simp: set_firstOccurrences)

lemma indicesFirst_Cons_index:
  "isArrayIndex a \<Longrightarrow> indicesFirst (a # ks) \<longleftrightarrow> indicesFirst ks"
  by (simp add: indicesFirst_def)

lemma indicesFirst_Cons_other:
  assumes "\<not> isArrayIndex a" "indicesFirst (a # ks)"
  shows "filter isArrayIndex ks = []" and "filter (\<lambda>k. \<not> isArrayIndex k) ks = ks"
proof -
  from assms have e: "a # ks = filter isArrayIndex ks @ a # filter (\<lambda>k. \<not> isArrayIndex k) ks"
    by (simp add: indicesFirst_def)
  show 1: "filter isArrayIndex ks = []"
  proof (cases "filter isArrayIndex ks")
    case Nil
    then show ?thesis .
  next
    case (Cons b bs)
    with e have "a = b" by simp
    moreover from Cons have "b \<in> set (filter isArrayIndex ks)" by simp
    ultimately have "isArrayIndex a" by simp
    with assms(1) show ?thesis by simp
  qed
  with e show "filter (\<lambda>k. \<not> isArrayIndex k) ks = ks" by simp
qed

lemma insertIndexKey_order:
  assumes "isArrayIndex k"
  shows "k \<notin> set (map fst ps) \<Longrightarrow> indicesFirst (map fst ps) \<Longrightarrow>
     map fst (insertIndexKey k v ps)
       = insort_key decimalValue k (filter isArrayIndex (map fst ps))
         @ filter (\<lambda>k. \<not> isArrayIndex k) (map fst ps)"
proof (induction ps)
  case Nil
  then show ?case by simp
next
  case (Cons p ps)
  show ?case
  proof (cases "isArrayIndex (fst p)")
    case True
    with Cons.prems(2) have shape: "indicesFirst (map fst ps)"
      by (simp add: indicesFirst_Cons_index)
    from Cons.prems(1) have k: "k \<notin> set (map fst ps)" by simp
    note IH = Cons.IH [OF k shape]
    have less: "indexLess (fst p) k \<longleftrightarrow> decimalValue (fst p) < decimalValue k"
      using True assms by (rule isArrayIndex_less)
    show ?thesis
    proof (cases "indexLess (fst p) k")
      case True
      with less have "\<not> decimalValue k \<le> decimalValue (fst p)" by simp
      with True \<open>isArrayIndex (fst p)\<close> show ?thesis by (simp add: IH)
    next
      case False
      with less have "decimalValue k \<le> decimalValue (fst p)" by simp
      moreover from shape have "map fst ps = filter isArrayIndex (map fst ps)
          @ filter (\<lambda>k. \<not> isArrayIndex k) (map fst ps)"
        by (simp add: indicesFirst_def)
      ultimately show ?thesis using False \<open>isArrayIndex (fst p)\<close> by simp
    qed
  next
    case False
    from indicesFirst_Cons_other [OF False] Cons.prems(2)
    have "filter isArrayIndex (map fst ps) = []"
      and "filter (\<lambda>k. \<not> isArrayIndex k) (map fst ps) = map fst ps"
      by simp_all
    with False show ?thesis by simp
  qed
qed

lemma filter_index_insort:
  assumes "isArrayIndex k"
  shows "filter isArrayIndex (insort_key decimalValue k (filter isArrayIndex ks) @ filter (\<lambda>k. \<not> isArrayIndex k) ks)
       = insort_key decimalValue k (filter isArrayIndex ks)"
    and "filter (\<lambda>k. \<not> isArrayIndex k) (insort_key decimalValue k (filter isArrayIndex ks) @ filter (\<lambda>k. \<not> isArrayIndex k) ks)
       = filter (\<lambda>k. \<not> isArrayIndex k) ks"
proof -
  have all: "\<forall>x \<in> set (insort_key decimalValue k (filter isArrayIndex ks)). isArrayIndex x"
    using assms by (simp add: set_insort_key)
  then have 1: "filter isArrayIndex (insort_key decimalValue k (filter isArrayIndex ks))
      = insort_key decimalValue k (filter isArrayIndex ks)"
    by (simp only: filter_True)
  from all have 2: "filter (\<lambda>k. \<not> isArrayIndex k) (insort_key decimalValue k (filter isArrayIndex ks)) = []"
    by (simp add: filter_empty_conv)
  show "filter isArrayIndex (insort_key decimalValue k (filter isArrayIndex ks) @ filter (\<lambda>k. \<not> isArrayIndex k) ks)
       = insort_key decimalValue k (filter isArrayIndex ks)"
    by (simp add: 1)
  show "filter (\<lambda>k. \<not> isArrayIndex k) (insort_key decimalValue k (filter isArrayIndex ks) @ filter (\<lambda>k. \<not> isArrayIndex k) ks)
       = filter (\<lambda>k. \<not> isArrayIndex k) ks"
    by (simp add: 2)
qed

text \<open>
  The names of an object after \<open>obj[k] = v\<close>: an array index that is new goes to its place
  among the array indices, another new name goes to the end, a name that is there stays.
\<close>

lemma keys_obj_set_index:
  assumes "indicesFirst (map fst ps)"
  shows "filter isArrayIndex (map fst (obj_set ps k v))
       = (if isArrayIndex k \<and> k \<notin> set (map fst ps)
          then insort_key decimalValue k (filter isArrayIndex (map fst ps))
          else filter isArrayIndex (map fst ps))"
    and "filter (\<lambda>k. \<not> isArrayIndex k) (map fst (obj_set ps k v))
       = (if \<not> isArrayIndex k \<and> k \<notin> set (map fst ps)
          then filter (\<lambda>k. \<not> isArrayIndex k) (map fst ps) @ [k]
          else filter (\<lambda>k. \<not> isArrayIndex k) (map fst ps))"
    and "indicesFirst (map fst (obj_set ps k v))"
proof -
  consider (old) "k \<in> set (map fst ps)"
    | (index) "k \<notin> set (map fst ps)" "isArrayIndex k"
    | (other) "k \<notin> set (map fst ps)" "\<not> isArrayIndex k"
    by blast
  then have "filter isArrayIndex (map fst (obj_set ps k v))
       = (if isArrayIndex k \<and> k \<notin> set (map fst ps)
          then insort_key decimalValue k (filter isArrayIndex (map fst ps))
          else filter isArrayIndex (map fst ps))
    \<and> filter (\<lambda>k. \<not> isArrayIndex k) (map fst (obj_set ps k v))
       = (if \<not> isArrayIndex k \<and> k \<notin> set (map fst ps)
          then filter (\<lambda>k. \<not> isArrayIndex k) (map fst ps) @ [k]
          else filter (\<lambda>k. \<not> isArrayIndex k) (map fst ps))
    \<and> indicesFirst (map fst (obj_set ps k v))"
  proof cases
    case old
    then have "map fst (obj_set ps k v) = map fst ps"
      by (simp only: obj_set_def if_True keys_replace)
    with old assms show ?thesis by simp
  next
    case index
    then have "map fst (obj_set ps k v) = map fst (insertIndexKey k v ps)"
      by (simp only: obj_set_def if_False if_True)
    also have "\<dots> = insort_key decimalValue k (filter isArrayIndex (map fst ps))
         @ filter (\<lambda>k. \<not> isArrayIndex k) (map fst ps)"
      using index(2,1) assms by (rule insertIndexKey_order)
    finally have e: "map fst (obj_set ps k v)
        = insort_key decimalValue k (filter isArrayIndex (map fst ps))
         @ filter (\<lambda>k. \<not> isArrayIndex k) (map fst ps)" .
    from index show ?thesis
      unfolding indicesFirst_def e filter_index_insort [OF index(2)] by simp
  next
    case other
    then have e: "map fst (obj_set ps k v) = map fst ps @ [k]"
      by (simp add: obj_set_def)
    from assms have "map fst ps = filter isArrayIndex (map fst ps)
          @ filter (\<lambda>k. \<not> isArrayIndex k) (map fst ps)"
      by (simp add: indicesFirst_def)
    with other show ?thesis unfolding indicesFirst_def e by simp
  qed
  then show "filter isArrayIndex (map fst (obj_set ps k v))
       = (if isArrayIndex k \<and> k \<notin> set (map fst ps)
          then insort_key decimalValue k (filter isArrayIndex (map fst ps))
          else filter isArrayIndex (map fst ps))"
    and "filter (\<lambda>k. \<not> isArrayIndex k) (map fst (obj_set ps k v))
       = (if \<not> isArrayIndex k \<and> k \<notin> set (map fst ps)
          then filter (\<lambda>k. \<not> isArrayIndex k) (map fst ps) @ [k]
          else filter (\<lambda>k. \<not> isArrayIndex k) (map fst ps))"
    and "indicesFirst (map fst (obj_set ps k v))"
    by simp_all
qed


section \<open>The statistics of the dashboard\<close>

subsection \<open>The distribution\<close>

lemma map_of_countCourse:
  "map_of (countCourse acc s) = (map_of acc)(course s \<mapsto> Suc (count_in acc (course s)))"
  by (simp add: countCourse_def map_of_obj_set obj_get_def count_in_def)

lemma distinct_countCourse: "distinct (map fst acc) \<Longrightarrow> distinct (map fst (countCourse acc s))"
  by (simp add: countCourse_def distinct_obj_set)

lemma distinct_distribution:
  "distinct (map fst acc) \<Longrightarrow> distinct (map fst (foldl countCourse acc studs))"
  by (induction studs arbitrary: acc) (simp_all add: distinct_countCourse)

lemma map_of_distribution:
  "map_of (foldl countCourse acc studs) c =
     (if c \<in> set (map fst acc) \<or> c \<in> course ` set studs
      then Some (count_in acc c + count_list (map course studs) c) else None)"
proof (induction studs arbitrary: acc)
  case Nil
  have "c \<in> set (map fst acc) \<longleftrightarrow> map_of acc c \<noteq> None"
    by (simp add: map_of_eq_None_iff)
  then show ?case
    by (cases "map_of acc c") (simp_all add: count_in_def)
next
  case (Cons s studs)
  have k: "set (map fst (countCourse acc s)) = insert (course s) (set (map fst acc))"
    unfolding countCourse_def by (rule keys_obj_set)
  have c: "count_in (countCourse acc s) c = (if c = course s then Suc (count_in acc c) else count_in acc c)"
    by (simp add: count_in_def map_of_countCourse)
  show ?case
    unfolding foldl_Cons Cons.IH k c by auto
qed

lemma keys_countCourse: "set (map fst (countCourse acc s)) = insert (course s) (set (map fst acc))"
  unfolding countCourse_def by (rule keys_obj_set)

lemma keys_distribution_set:
  "set (map fst (foldl countCourse acc studs)) = set (map fst acc) \<union> course ` set studs"
proof (induction studs arbitrary: acc)
  case Nil
  then show ?case by simp
next
  case (Cons s studs)
  show ?case unfolding foldl_Cons Cons.IH keys_countCourse by auto
qed

text \<open>
  The names of the distribution: the array indices stay first and in ascending numeric
  order, and the other names follow in the order in which the records bring them.
\<close>

lemma distribution_order:
  assumes "indicesFirst (map fst acc)"
    and "sorted (map decimalValue (filter isArrayIndex (map fst acc)))"
  shows "indicesFirst (map fst (foldl countCourse acc studs))"
    and "sorted (map decimalValue (filter isArrayIndex (map fst (foldl countCourse acc studs))))"
    and "filter (\<lambda>k. \<not> isArrayIndex k) (map fst (foldl countCourse acc studs))
       = filter (\<lambda>k. \<not> isArrayIndex k) (map fst acc)
         @ filter (\<lambda>c. c \<notin> set (map fst acc))
             (firstOccurrences (filter (\<lambda>k. \<not> isArrayIndex k) (map course studs)))"
  using assms
proof (induction studs arbitrary: acc)
  case Nil
  {
    case 1 then show ?case by simp
  next
    case 2 then show ?case by simp
  next
    case 3 then show ?case by simp
  }
next
  case (Cons s studs)
  let ?X = "filter (\<lambda>k. \<not> isArrayIndex k) (map course studs)"
  {
    fix acc :: "(string \<times> nat) list"
    assume shape: "indicesFirst (map fst acc)"
      and sorted: "sorted (map decimalValue (filter isArrayIndex (map fst acc)))"
    let ?acc = "countCourse acc s"
    note step = keys_obj_set_index [OF shape, of "course s"
        "(case obj_get acc (course s) of None \<Rightarrow> 0 | Some n \<Rightarrow> n) + 1", folded countCourse_def]
    have shape': "indicesFirst (map fst ?acc)" by (rule step(3))
    have sorted': "sorted (map decimalValue (filter isArrayIndex (map fst ?acc)))"
      unfolding step(1) using sorted by (simp add: sorted_insort_key)
    have others: "filter (\<lambda>k. \<not> isArrayIndex k) (map fst ?acc)
       = (if \<not> isArrayIndex (course s) \<and> course s \<notin> set (map fst acc)
          then filter (\<lambda>k. \<not> isArrayIndex k) (map fst acc) @ [course s]
          else filter (\<lambda>k. \<not> isArrayIndex k) (map fst acc))"
      by (rule step(2))
    note shape' sorted' others
  }
  note step = this
  {
    case 1
    from step(1,2) [OF 1] show ?case unfolding foldl_Cons by (rule Cons.IH(1))
  next
    case 2
    from step(1,2) [OF 2] show ?case unfolding foldl_Cons by (rule Cons.IH(2))
  next
    case 3
    note IH = Cons.IH(3) [OF step(1,2) [OF 3]]
    have k: "set (map fst (countCourse acc s)) = insert (course s) (set (map fst acc))"
      by (rule keys_countCourse)
    have X: "\<forall>x \<in> set (firstOccurrences ?X). \<not> isArrayIndex x"
      by (simp add: set_firstOccurrences)
    consider (index) "isArrayIndex (course s)"
      | (old) "\<not> isArrayIndex (course s)" "course s \<in> set (map fst acc)"
      | (new) "\<not> isArrayIndex (course s)" "course s \<notin> set (map fst acc)"
      by blast
    then show ?case
    proof cases
      case index
      with X have "\<forall>x \<in> set (firstOccurrences ?X). x \<noteq> course s" by blast
      then have "filter (\<lambda>c. c \<notin> insert (course s) (set (map fst acc))) (firstOccurrences ?X)
          = filter (\<lambda>c. c \<notin> set (map fst acc)) (firstOccurrences ?X)"
        by (intro filter_cong) auto
      with index show ?thesis
        unfolding foldl_Cons IH k step(3) [OF 3] by simp
    next
      case old
      have "filter (\<lambda>c. c \<notin> set (map fst acc)) (filter (\<lambda>y. y \<noteq> course s) xs)
          = filter (\<lambda>c. c \<notin> set (map fst acc)) xs" for xs
        using old(2) by (induction xs) auto
      moreover from old(2) have "insert (course s) (set (map fst acc)) = set (map fst acc)"
        by auto
      ultimately show ?thesis
        using old unfolding foldl_Cons IH k step(3) [OF 3] by simp
    next
      case new
      have "filter (\<lambda>c. c \<notin> insert (course s) (set (map fst acc))) xs
          = filter (\<lambda>c. c \<notin> set (map fst acc)) (filter (\<lambda>y. y \<noteq> course s) xs)" for xs
        by (induction xs) auto
      then show ?thesis
        using new unfolding foldl_Cons IH k step(3) [OF 3] by simp
    qed
  }
qed

lemma inj_on_decimalValue: "\<forall>x \<in> A. isArrayIndex x \<Longrightarrow> inj_on decimalValue A"
  by (rule inj_onI) (blast intro: decimalValue_inj isArrayIndex_canonical)

lemma keys_distribution:
  "map fst (foldl countCourse [] studs) = enumerationOrder (map course studs)"
proof -
  let ?D = "foldl countCourse [] studs"
  let ?A = "filter isArrayIndex (map fst ?D)"
  let ?S = "sort_key decimalValue (remdups (filter isArrayIndex (map course studs)))"
  have e: "indicesFirst (map fst [])" "sorted (map decimalValue (filter isArrayIndex (map fst [])))"
    by (simp_all add: indicesFirst_def)
  note o = distribution_order [OF e, of studs]
  have "distinct (map fst ?D)" by (simp add: distinct_distribution)
  then have dA: "distinct ?A" by (rule distinct_filter)
  have sA: "set ?A = set ?S"
    by (simp only: set_filter set_sort set_remdups keys_distribution_set) auto
  have inj: "inj_on decimalValue (set ?A \<union> set ?S)"
    by (rule inj_on_decimalValue) auto
  then have iA: "inj_on decimalValue (set ?A)" and iS: "inj_on decimalValue (set ?S)"
    by (simp_all add: inj_on_Un)
  have "?A = ?S"
  proof (rule map_sorted_distinct_set_unique [OF inj])
    show "sorted (map decimalValue ?A)" by (rule o(2))
    show "distinct (map decimalValue ?A)" using dA iA by (simp add: distinct_map)
    show "sorted (map decimalValue ?S)" by simp
    show "distinct (map decimalValue ?S)" using iS by (simp add: distinct_map)
    show "set ?A = set ?S" by (rule sA)
  qed
  moreover from o(3) have "filter (\<lambda>k. \<not> isArrayIndex k) (map fst ?D)
      = firstOccurrences (filter (\<lambda>k. \<not> isArrayIndex k) (map course studs))"
    by simp
  moreover from o(1) have "map fst ?D = ?A @ filter (\<lambda>k. \<not> isArrayIndex k) (map fst ?D)"
    by (simp add: indicesFirst_def)
  ultimately show ?thesis by (simp add: enumerationOrder_def)
qed

lemma entries_of_keys:
  "distinct (map fst xs) \<Longrightarrow> xs = map (\<lambda>k. (k, the (map_of xs k))) (map fst xs)"
proof (induction xs)
  case Nil
  then show ?case by simp
next
  case (Cons x xs)
  obtain a b where x: "x = (a, b)" by (cases x)
  from Cons.prems have d: "distinct (map fst xs)" and a: "a \<notin> set (map fst xs)"
    by (simp_all add: x)
  have "map (\<lambda>k. (k, the (map_of (x # xs) k))) (map fst xs)
      = map (\<lambda>k. (k, the (map_of xs k))) (map fst xs)"
  proof (rule map_cong [OF refl])
    fix k assume "k \<in> set (map fst xs)"
    with a have "k \<noteq> a" by auto
    then show "(k, the (map_of (x # xs) k)) = (k, the (map_of xs k))" by (simp add: x)
  qed
  also have "\<dots> = xs" using Cons.IH [OF d] by simp
  finally have t: "map (\<lambda>k. (k, the (map_of (x # xs) k))) (map fst xs) = xs" .
  have h: "(fst x, the (map_of (x # xs) (fst x))) = x" by (simp add: x)
  show ?case unfolding list.map(2) h t ..
qed

lemma distribution_entries:
  "foldl countCourse [] studs
     = map (\<lambda>k. (k, count_list (map course studs) k)) (enumerationOrder (map course studs))"
proof -
  let ?D = "foldl countCourse [] studs"
  have "distinct (map fst ?D)" by (simp add: distinct_distribution)
  then have "?D = map (\<lambda>k. (k, the (map_of ?D k))) (map fst ?D)" by (rule entries_of_keys)
  also have "\<dots> = map (\<lambda>k. (k, count_list (map course studs) k)) (map fst ?D)"
  proof (rule map_cong [OF refl])
    fix k assume "k \<in> set (map fst ?D)"
    then have "k \<in> course ` set studs" unfolding keys_distribution_set by simp
    then show "(k, the (map_of ?D k)) = (k, count_list (map course studs) k)"
      by (simp add: map_of_distribution count_in_def)
  qed
  finally show ?thesis by (simp only: keys_distribution)
qed


subsection \<open>The head of a stable sort\<close>

lemma hd_sorted_min:
  "sorted (map f ys) \<Longrightarrow> y \<in> set ys \<Longrightarrow> f (hd ys) \<le> f y"
  by (cases ys) auto

lemma hd_sort_key:
  assumes "xs \<noteq> []"
  shows "find (\<lambda>x. list_all (\<lambda>y. f x \<le> f y) xs) xs = Some (hd (sort_key f xs))"
proof -
  let ?ys = "sort_key f xs"
  from assms have ne: "?ys \<noteq> []" by (metis length_sort length_0_conv)
  then obtain z zs where ys: "?ys = z # zs" by (cases ?ys) auto
  have zmin: "f z \<le> f y" if "y \<in> set xs" for y
  proof -
    from that have "y \<in> set ?ys" by simp
    moreover have "sorted (map f ?ys)" by simp
    ultimately have "f (hd ?ys) \<le> f y" by (rule hd_sorted_min [rotated])
    then show ?thesis by (simp add: ys)
  qed
  have zin: "z \<in> set xs" using ys by (metis list.set_intros(1) set_sort)
  have "filter (\<lambda>y. f y = f z) xs = filter (\<lambda>y. f y = f z) ?ys"
    by (simp add: sort_key_stable)
  also have "\<dots> = z # filter (\<lambda>y. f y = f z) zs" by (simp add: ys)
  finally have fz: "filter (\<lambda>y. f y = f z) xs = z # filter (\<lambda>y. f y = f z) zs" .
  have eqP: "list_all (\<lambda>y. f x \<le> f y) xs \<longleftrightarrow> f x = f z" if "x \<in> set xs" for x
    using that zmin zin by (auto simp: list_all_iff intro: antisym)
  have "find (\<lambda>x. list_all (\<lambda>y. f x \<le> f y) xs) xs = find (\<lambda>x. f x = f z) xs"
    by (rule find_cong) (auto simp: eqP)
  also have "\<dots> = Some z"
  proof -
    have "find P xs = (case filter P xs of [] \<Rightarrow> None | x # _ \<Rightarrow> Some x)" for P
      by (induction xs) auto
    then show ?thesis by (simp add: fz)
  qed
  finally show ?thesis by (simp add: ys)
qed

text \<open>What \<open>firstMostFrequent\<close> finds: an entry of maximal count with only smaller ones before it.\<close>

lemma firstMostFrequent_Some:
  assumes "firstMostFrequent D = Some e"
  shows "\<exists>i<length D. D ! i = e \<and> list_all (\<lambda>e'. snd e' \<le> snd e) D
           \<and> (\<forall>j<i. snd (D ! j) < snd e)"
proof -
  from assms obtain i where i: "i < length D" "list_all (\<lambda>e'. snd e' \<le> snd (D ! i)) D"
      "e = D ! i" "\<forall>j<i. \<not> list_all (\<lambda>e'. snd e' \<le> snd (D ! j)) D"
    unfolding firstMostFrequent_def find_Some_iff by blast
  have "snd (D ! j) < snd e" if "j < i" for j
  proof -
    from that i(4) have "\<not> list_all (\<lambda>e'. snd e' \<le> snd (D ! j)) D" by blast
    then obtain e' where e': "e' \<in> set D" "\<not> snd e' \<le> snd (D ! j)"
      by (auto simp: list_all_iff)
    from i(2) e'(1) have "snd e' \<le> snd (D ! i)" by (auto simp: list_all_iff)
    with e'(2) i(3) show ?thesis by simp
  qed
  with i show ?thesis by blast
qed

lemma firstMostFrequent_sort:
  "D \<noteq> [] \<Longrightarrow> firstMostFrequent D = Some (hd (sortByCountDesc D))"
  unfolding firstMostFrequent_def sortByCountDesc_def
  using hd_sort_key [of D "\<lambda>e. - int (snd e)"] by simp


text \<open>
  C5, as the code has it. For three records with the courses CS, CS and DS the
  distribution is CS: 2, DS: 1 and the most popular course is CS. In general, for course
  names that are not names of properties inherited from \<open>Object.prototype\<close>:
  \<open>courseDistribution\<close> has one entry per course, with the number of records of that
  course; its entries are enumerated with the courses whose names are array indices
  (canonical numeric strings that denote a number below \<open>2^32 - 1\<close>) first, in ascending
  numeric order, and then the other courses in the order of their first occurrence, which
  is the order of first occurrence of all courses when no name is an array index; and for
  a non-empty record set \<open>mostPopularCourse\<close> is the first course in that enumeration whose
  count no other exceeds, except that it is "None" when that course is the empty string.
\<close>

theorem studentStats_most_popular:
  "studentStats [a\<lparr>course := ''CS''\<rparr>, b\<lparr>course := ''CS''\<rparr>, c\<lparr>course := ''DS''\<rparr>]
     = Normal \<lparr>total = 3, courseDistribution = [(''CS'', 2), (''DS'', 1)],
               mostPopularCourse = ''CS''\<rparr>
   \<and> (isArrayIndex i \<longleftrightarrow> canonicalNumeric i \<and> decimalValue i < 2 ^ 32 - 1)
   \<and> (\<not> list_ex (\<lambda>s. course s \<in> set objectPrototypeNames) studs \<longrightarrow>
        (\<exists>st. studentStats studs = Normal st
           \<and> total st = length studs
           \<and> courseDistribution st
               = map (\<lambda>k. (k, count_list (map course studs) k))
                   (enumerationOrder (map course studs))
           \<and> distinct (map fst (courseDistribution st))
           \<and> (\<forall>k. map_of (courseDistribution st) k
                  = (if k \<in> course ` set studs then Some (count_list (map course studs) k)
                     else None))
           \<and> map fst (courseDistribution st) = enumerationOrder (map course studs)
           \<and> (\<not> list_ex isArrayIndex (map course studs) \<longrightarrow>
                 map fst (courseDistribution st) = firstOccurrences (map course studs))
           \<and> (studs \<noteq> [] \<longrightarrow>
                 (\<exists>k n. firstMostFrequent (courseDistribution st) = Some (k, n)
                    \<and> mostPopularCourse st = (if k = [] then ''None'' else k)))))"
proof -
  have ex: "studentStats [a\<lparr>course := ''CS''\<rparr>, b\<lparr>course := ''CS''\<rparr>, c\<lparr>course := ''DS''\<rparr>]
     = Normal \<lparr>total = 3, courseDistribution = [(''CS'', 2), (''DS'', 1)],
               mostPopularCourse = ''CS''\<rparr>"
    by (simp add: studentStats_def objectPrototypeNames_def countCourse_def obj_set_def
        obj_get_def isArrayIndex_def isDigit_def sortByCountDesc_def truthy_def)
  have ix: "isArrayIndex i \<longleftrightarrow> canonicalNumeric i \<and> decimalValue i < 2 ^ 32 - 1"
    by (rule isArrayIndex_numeric)
  have gen: "\<exists>st. studentStats studs = Normal st
           \<and> total st = length studs
           \<and> courseDistribution st
               = map (\<lambda>k. (k, count_list (map course studs) k))
                   (enumerationOrder (map course studs))
           \<and> distinct (map fst (courseDistribution st))
           \<and> (\<forall>k. map_of (courseDistribution st) k
                  = (if k \<in> course ` set studs then Some (count_list (map course studs) k)
                     else None))
           \<and> map fst (courseDistribution st) = enumerationOrder (map course studs)
           \<and> (\<not> list_ex isArrayIndex (map course studs) \<longrightarrow>
                 map fst (courseDistribution st) = firstOccurrences (map course studs))
           \<and> (studs \<noteq> [] \<longrightarrow>
                 (\<exists>k n. firstMostFrequent (courseDistribution st) = Some (k, n)
                    \<and> mostPopularCourse st = (if k = [] then ''None'' else k)))"
    if ok: "\<not> list_ex (\<lambda>s. course s \<in> set objectPrototypeNames) studs"
  proof -
    define D where "D = foldl countCourse [] studs"
    define st where "st = \<lparr>total = length studs, courseDistribution = D,
        mostPopularCourse = (case sortByCountDesc D of [] \<Rightarrow> ''None''
           | e # es \<Rightarrow> if truthy (Some (fst e)) then fst e else ''None'')\<rparr>"
    have 1: "studentStats studs = Normal st"
      using ok by (simp add: studentStats_def Let_def st_def D_def)
    have 2: "total st = length studs" by (simp add: st_def)
    have 3: "distinct (map fst (courseDistribution st))"
      by (simp add: st_def D_def distinct_distribution)
    have 4: "map_of (courseDistribution st) k
                  = (if k \<in> course ` set studs then Some (count_list (map course studs) k)
                     else None)" for k
      by (simp add: st_def D_def map_of_distribution count_in_def)
    have 5: "map fst (courseDistribution st) = enumerationOrder (map course studs)"
      using keys_distribution [of studs] by (simp add: st_def D_def)
    have 6: "map fst (courseDistribution st) = firstOccurrences (map course studs)"
      if "\<not> list_ex isArrayIndex (map course studs)"
    proof -
      from that have "filter isArrayIndex (map course studs) = []"
        and "filter (\<lambda>k. \<not> isArrayIndex k) (map course studs) = map course studs"
        by (simp_all add: list_ex_iff filter_empty_conv filter_id_conv)
      then show ?thesis unfolding 5 enumerationOrder_def by simp
    qed
    have 7: "courseDistribution st
               = map (\<lambda>k. (k, count_list (map course studs) k))
                   (enumerationOrder (map course studs))"
      using distribution_entries [of studs] by (simp add: st_def D_def)
    have 8: "\<exists>k n. firstMostFrequent (courseDistribution st) = Some (k, n)
                    \<and> mostPopularCourse st = (if k = [] then ''None'' else k)"
      if ne: "studs \<noteq> []"
    proof -
      from ne obtain s where "s \<in> set studs" by (cases studs) auto
      then have "map_of D (course s) \<noteq> None"
        by (simp add: D_def map_of_distribution)
      then have Dne: "D \<noteq> []" by auto
      then have sne: "sortByCountDesc D \<noteq> []"
        by (metis length_sort length_0_conv sortByCountDesc_def)
      then obtain e es where e: "sortByCountDesc D = e # es" by (cases "sortByCountDesc D") auto
      from Dne have "firstMostFrequent D = Some (hd (sortByCountDesc D))"
        by (rule firstMostFrequent_sort)
      with e have "firstMostFrequent (courseDistribution st) = Some (fst e, snd e)"
        by (simp add: st_def)
      moreover have "mostPopularCourse st = (if fst e = [] then ''None'' else fst e)"
        by (simp add: st_def e truthy_def)
      ultimately show ?thesis by blast
    qed
    from 1 2 3 4 5 6 7 8 show ?thesis by blast
  qed
  from ex ix gen show ?thesis by blast
qed

theorem studentStats_most_popular_witness:
  "\<exists>st. studentStats (map sample_student [''x'', ''10'', ''7'', ''x'', ''7'']) = Normal st
     \<and> total st = 5
     \<and> courseDistribution st = [(''7'', 2), (''10'', 1), (''x'', 2)]
     \<and> mostPopularCourse st = ''7''"
proof -
  let ?S = "map sample_student [''x'', ''10'', ''7'', ''x'', ''7'']"
  have h1: "\<not> list_ex (\<lambda>s. course s \<in> set objectPrototypeNames) ?S"
    by (simp add: sample_student_def objectPrototypeNames_def)
  have h3: "?S \<noteq> []" by simp
  have c: "map course ?S = [''x'', ''10'', ''7'', ''x'', ''7'']"
    by (simp add: sample_student_def)
  have ix: "isArrayIndex ''10''" "isArrayIndex ''7''" "\<not> isArrayIndex ''x''"
    by (simp_all add: isArrayIndex_def isDigit_def indexLess_def)
  have v: "decimalValue ''10'' = 10" "decimalValue ''7'' = 7"
    by (simp_all add: decimalValue_def)
  have o: "enumerationOrder [''x'', ''10'', ''7'', ''x'', ''7''] = [''7'', ''10'', ''x'']"
    by (simp add: enumerationOrder_def ix v)
  from studentStats_most_popular [of _ _ _ _ ?S] h1
  obtain st where st: "studentStats ?S = Normal st" "total st = length ?S"
     "courseDistribution st
        = map (\<lambda>k. (k, count_list (map course ?S) k)) (enumerationOrder (map course ?S))"
     "?S \<noteq> [] \<longrightarrow> (\<exists>k n. firstMostFrequent (courseDistribution st) = Some (k, n)
                    \<and> mostPopularCourse st = (if k = [] then ''None'' else k))"
    by blast
  from st(2) have a: "total st = 5" by simp
  from st(3) have b: "courseDistribution st = [(''7'', 2), (''10'', 1), (''x'', 2)]"
    unfolding c o by simp
  have f: "firstMostFrequent [(''7'', 2), (''10'', 1), (''x'', 2 :: nat)] = Some (''7'', 2)"
    by (simp add: firstMostFrequent_def)
  from st(4) h3 have d: "mostPopularCourse st = ''7''"
    unfolding b f by simp
  show ?thesis
    by (rule exI [of _ st], intro conjI) (fact st(1) a b d)+
qed

text \<open>
  The enumeration at work: the courses x and 7, and the courses 2 and 1, each met once and
  in this order. The distribution enumerates 7 before x and 1 before 2, and the tie goes
  to the first of them.
\<close>

lemma studentStats_index_names_first:
  "studentStats [sample_student ''x'', sample_student ''7'']
     = Normal \<lparr>total = 2, courseDistribution = [(''7'', 1), (''x'', 1)],
               mostPopularCourse = ''7''\<rparr>
   \<and> studentStats [sample_student ''2'', sample_student ''1'']
     = Normal \<lparr>total = 2, courseDistribution = [(''1'', 1), (''2'', 1)],
               mostPopularCourse = ''1''\<rparr>"
  by (simp add: studentStats_def sample_student_def objectPrototypeNames_def countCourse_def
      obj_set_def obj_get_def isArrayIndex_def isDigit_def indexLess_def sortByCountDesc_def
      truthy_def)

text \<open>
  C5 as stated fails for a record whose course is the empty string: that course has the
  maximal count, and \<open>mostPopularCourse\<close> is "None", which is no course of the set.
\<close>

theorem studentStats_empty_course_counterexample:
  "studentStats [sample_student []]
     = Normal \<lparr>total = 1, courseDistribution = [([], 1)], mostPopularCourse = ''None''\<rparr>
   \<and> map course [sample_student []] = [[]]"
  by (simp add: studentStats_def sample_student_def objectPrototypeNames_def countCourse_def
      obj_set_def obj_get_def isArrayIndex_def isDigit_def indexLess_def sortByCountDesc_def
      truthy_def)


text \<open>
  C10. For the empty record set the statistics are a total of 0, an empty distribution
  and the most popular course "None".
\<close>

theorem studentStats_of_no_records:
  "studentStats [] = Normal \<lparr>total = 0, courseDistribution = [], mostPopularCourse = ''None''\<rparr>"
  by (simp add: studentStats_def sortByCountDesc_def)


section \<open>JSON.parse undoes JSON.stringify\<close>

subsection \<open>String literals\<close>

lemma hexValue_hexDigit: "k < 16 \<Longrightarrow> hexValue (hexDigit k) = Some k"
proof -
  assume "k < 16"
  then have "k \<in> {0, 1, 2, 3, 4, 5, 6, 7, 8, 9, 10, 11, 12, 13, 14, 15}" by simp arith
  then show ?thesis
    by (elim insertE emptyE) (simp_all add: hexDigit_def hexValue_def)
qed

lemma control_char_code: "c < CHR 0x20 \<Longrightarrow> (of_char c :: nat) < 32"
  by (simp add: less_char_def)

lemma hex4_control:
  assumes "c < CHR 0x20"
  shows "hex4 (CHR ''0'') (CHR ''0'') (hexDigit ((of_char c :: nat) div 16))
           (hexDigit ((of_char c :: nat) mod 16)) = Some (of_char c)"
proof -
  from assms have n: "(of_char c :: nat) < 32" by (rule control_char_code)
  then have "(of_char c :: nat) div 16 < 16" by simp
  then have 1: "hexValue (hexDigit ((of_char c :: nat) div 16)) = Some ((of_char c :: nat) div 16)"
    by (rule hexValue_hexDigit)
  have 2: "hexValue (hexDigit ((of_char c :: nat) mod 16)) = Some ((of_char c :: nat) mod 16)"
    by (rule hexValue_hexDigit) simp
  have 0: "hexValue (CHR ''0'') = Some 0" by (simp add: hexValue_def)
  show ?thesis by (simp add: hex4_def 0 1 2)
qed

lemma parse_chars_escapeChar:
  "parse_chars (escapeChar c @ s) = pcons c (parse_chars s)"
proof -
  consider (b) "c = CHR 0x08" | (t) "c = CHR 0x09" | (n) "c = CHR 0x0A" | (f) "c = CHR 0x0C"
    | (r) "c = CHR 0x0D" | (q) "c = CHR 0x22" | (bs) "c = CHR 0x5C"
    | (ctl) "c \<notin> {CHR 0x08, CHR 0x09, CHR 0x0A, CHR 0x0C, CHR 0x0D, CHR 0x22, CHR 0x5C}" "c < CHR 0x20"
    | (raw) "c \<notin> {CHR 0x08, CHR 0x09, CHR 0x0A, CHR 0x0C, CHR 0x0D, CHR 0x22, CHR 0x5C}" "\<not> c < CHR 0x20"
    by blast
  then show ?thesis
  proof cases
    case ctl
    from ctl(2) have h: "hex4 (CHR ''0'') (CHR ''0'') (hexDigit ((of_char c :: nat) div 16))
           (hexDigit ((of_char c :: nat) mod 16)) = Some (of_char c)" by (rule hex4_control)
    have lt: "(of_char c :: nat) < 256" by simp
    from ctl show ?thesis
      by (simp add: escapeChar_def h lt)
  next
    case raw
    then show ?thesis by (simp add: escapeChar_def)
  qed (simp_all add: escapeChar_def unescape_def)
qed

lemma parse_chars_body:
  "parse_chars (concat (map escapeChar s) @ CHR 0x22 # rest) = POk s rest"
  by (induction s) (simp_all add: parse_chars_escapeChar pcons_def)

lemma parse_chars_quoted:
  "QuoteJSONString s @ rest = CHR 0x22 # concat (map escapeChar s) @ CHR 0x22 # rest"
  by (simp add: QuoteJSONString_def)


subsection \<open>Steps of the parser\<close>

lemma skip_ws_nonspace: "\<not> isJSONSpace c \<Longrightarrow> skip_ws (c # s) = c # s"
  by (simp add: skip_ws_def)

lemma parse_value_null: "parse_value (Suc n) (''null'' @ rest) = POk JNull rest"
  by (simp add: skip_ws_def isJSONSpace_def)

lemma parse_value_true: "parse_value (Suc n) (''true'' @ rest) = POk (JBool True) rest"
  by (simp add: skip_ws_def isJSONSpace_def)

lemma parse_value_false: "parse_value (Suc n) (''false'' @ rest) = POk (JBool False) rest"
  by (simp add: skip_ws_def isJSONSpace_def)

lemma parse_value_string:
  "parse_value (Suc n) (QuoteJSONString s @ rest) = POk (JStr s) rest"
  by (simp add: parse_chars_quoted parse_chars_body skip_ws_def isJSONSpace_def)

lemma parse_value_empty_array: "parse_value (Suc n) (''[]'' @ rest) = POk (JArr []) rest"
  by (simp add: skip_ws_def isJSONSpace_def)

lemma parse_value_empty_object: "parse_value (Suc n) (''{}'' @ rest) = POk (JObj []) rest"
  by (simp add: skip_ws_def isJSONSpace_def)

lemma parse_value_array:
  "\<not> isJSONSpace d \<Longrightarrow> d \<noteq> CHR '']'' \<Longrightarrow>
     parse_value (Suc n) (CHR ''['' # d # r)
       = (case parse_elements n (d # r) of POk vs r' \<Rightarrow> POk (JArr vs) r' | PErr e \<Rightarrow> PErr e)"
  by (simp add: skip_ws_def isJSONSpace_def)

lemma parse_value_object:
  "\<not> isJSONSpace d \<Longrightarrow> d \<noteq> CHR ''}'' \<Longrightarrow>
     parse_value (Suc n) (CHR ''{'' # d # r)
       = (case parse_members n (d # r) of
            POk ms r' \<Rightarrow> POk (JObj (make_object ms)) r' | PErr e \<Rightarrow> PErr e)"
  by (simp add: skip_ws_def isJSONSpace_def)

lemma parse_elements_last:
  "parse_value n s = POk v (CHR '']'' # r) \<Longrightarrow> parse_elements (Suc n) s = POk [v] r"
  by (simp add: skip_ws_def isJSONSpace_def)

lemma parse_elements_more:
  "parse_value n s = POk v (CHR '','' # r) \<Longrightarrow>
     parse_elements (Suc n) s
       = (case parse_elements n r of POk vs r' \<Rightarrow> POk (v # vs) r' | PErr e \<Rightarrow> PErr e)"
  by (simp add: skip_ws_def isJSONSpace_def)

lemma parse_members_last:
  "parse_value n s = POk v (CHR ''}'' # r) \<Longrightarrow>
     parse_members (Suc n) (QuoteJSONString k @ CHR '':'' # s) = POk [(k, v)] r"
  by (simp add: parse_chars_quoted parse_chars_body skip_ws_def isJSONSpace_def)

lemma parse_members_more:
  "parse_value n s = POk v (CHR '','' # r) \<Longrightarrow>
     parse_members (Suc n) (QuoteJSONString k @ CHR '':'' # s)
       = (case parse_members n r of POk ms r' \<Rightarrow> POk ((k, v) # ms) r' | PErr e \<Rightarrow> PErr e)"
  by (simp add: parse_chars_quoted parse_chars_body skip_ws_def isJSONSpace_def)


subsection \<open>The first character of a serialised value\<close>

lemma opens_value_facts:
  "opens_value c \<Longrightarrow> \<not> isJSONSpace c \<and> c \<noteq> CHR '']'' \<and> c \<noteq> CHR ''}''"
  by (auto simp: opens_value_def isJSONSpace_def)

lemma JSON_stringify_None: "JSON_stringify v = None \<longleftrightarrow> v = JUndefined"
  by (cases v) simp_all

lemma join_commas_Cons:
  "join_commas (t # ts) = (if ts = [] then t else t @ '','' @ join_commas ts)"
  by (cases ts) simp_all

lemma stringify_first:
  "storable v \<Longrightarrow> JSON_stringify v = Some t \<Longrightarrow> \<exists>c r. t = c # r \<and> opens_value c"
  by (cases v) (auto simp: opens_value_def QuoteJSONString_def)

lemma stringify_elements_empty: "stringify_elements vs = [] \<longleftrightarrow> vs = []"
  by (cases vs) simp_all

lemma stringify_elements_first:
  assumes "storable v"
  shows "\<exists>c r. join_commas (stringify_elements (v # vs)) = c # r \<and> opens_value c"
proof (cases "JSON_stringify v")
  case None
  then show ?thesis by (auto simp: join_commas_Cons opens_value_def)
next
  case (Some t)
  with stringify_first [OF assms Some] show ?thesis by (auto simp: join_commas_Cons)
qed

lemma stringify_members_first:
  "stringify_members ms \<noteq> [] \<Longrightarrow>
     \<exists>c r. join_commas (stringify_members ms) = c # r \<and> opens_value c"
proof (induction ms)
  case Nil
  then show ?case by simp
next
  case (Cons p ms)
  obtain k v where p: "p = (k, v)" by (cases p)
  show ?case
  proof (cases "JSON_stringify v")
    case None
    with Cons p show ?thesis by simp
  next
    case (Some t)
    with p show ?thesis
      by (auto simp: join_commas_Cons opens_value_def QuoteJSONString_def)
  qed
qed

lemma stringify_members_empty:
  "stringify_members ms = [] \<longleftrightarrow> without_undefined_members ms = []"
proof (induction ms)
  case Nil
  then show ?case by simp
next
  case (Cons p ms)
  obtain k v where p: "p = (k, v)" by (cases p)
  show ?case
  proof (cases "v = JUndefined")
    case True
    with Cons p show ?thesis by simp
  next
    case False
    then obtain t where "JSON_stringify v = Some t"
      using JSON_stringify_None [of v] by (cases "JSON_stringify v") auto
    with False p show ?thesis by simp
  qed
qed

lemma keys_without_undefined:
  "map fst (without_undefined_members ms) = map fst (filter (\<lambda>p. snd p \<noteq> JUndefined) ms)"
  by (induction ms) auto


subsection \<open>Objects from members\<close>

lemma make_object_append:
  "distinct (map fst (acc @ ms)) \<Longrightarrow> \<not> list_ex isArrayIndex (map fst ms) \<Longrightarrow>
     foldl (\<lambda>ps m. obj_set ps (fst m) (snd m)) acc ms = acc @ ms"
proof (induction ms arbitrary: acc)
  case Nil
  then show ?case by simp
next
  case (Cons m ms)
  from Cons.prems have "obj_set acc (fst m) (snd m) = acc @ [m]"
    by (auto simp: obj_set_def)
  moreover from Cons.prems have "distinct (map fst ((acc @ [m]) @ ms))" by simp
  moreover from Cons.prems have "\<not> list_ex isArrayIndex (map fst ms)" by simp
  ultimately show ?case using Cons.IH [of "acc @ [m]"] by simp
qed

lemma make_object_plain:
  "distinct (map fst ms) \<Longrightarrow> \<not> list_ex isArrayIndex (map fst ms) \<Longrightarrow> make_object ms = ms"
  unfolding make_object_def using make_object_append [of "[]" ms] by simp


lemma make_object_without_undefined:
  assumes "distinct (map fst ms)" "\<not> list_ex isArrayIndex (map fst ms)"
  shows "make_object (without_undefined_members ms) = without_undefined_members ms"
proof (rule make_object_plain)
  from assms(1) show "distinct (map fst (without_undefined_members ms))"
    unfolding keys_without_undefined by (rule distinct_map_filter)
  from assms(2) show "\<not> list_ex isArrayIndex (map fst (without_undefined_members ms))"
    unfolding keys_without_undefined by (auto simp: list_ex_iff)
qed


subsection \<open>The round trip\<close>

text \<open>
  By induction along \<open>JSON_stringify\<close>: the parser, given at least twice the length of the
  text as its bound, reads back what JSON keeps of the value and leaves what follows the
  text.
\<close>

lemma parse_stringify:
  "storable v \<Longrightarrow> JSON_stringify v = Some t \<Longrightarrow> 2 * length t + 1 \<le> n \<Longrightarrow>
     parse_value n (t @ rest) = POk (without_undefined v) rest"
  and "vs \<noteq> [] \<Longrightarrow> storable_elements vs \<Longrightarrow>
     2 * length (join_commas (stringify_elements vs)) + 2 \<le> n \<Longrightarrow>
     parse_elements n (join_commas (stringify_elements vs) @ CHR '']'' # rest)
       = POk (without_undefined_elements vs) rest"
  and "stringify_members ms \<noteq> [] \<Longrightarrow> storable_members ms \<Longrightarrow>
     2 * length (join_commas (stringify_members ms)) + 2 \<le> n \<Longrightarrow>
     parse_members n (join_commas (stringify_members ms) @ CHR ''}'' # rest)
       = POk (without_undefined_members ms) rest"
proof (induction v and vs and ms arbitrary: t n rest and n rest and n rest
    rule: JSON_stringify_stringify_elements_stringify_members.induct)
  case 1
  then show ?case by simp
next
  case 2
  then obtain m where "n = Suc m" by (cases n) auto
  with 2 show ?case using parse_value_null [of m rest] by auto
next
  case (3 b)
  then obtain m where "n = Suc m" by (cases n) auto
  with 3 show ?case using parse_value_true [of m rest] parse_value_false [of m rest] by auto
next
  case (4 l)
  then show ?case by simp
next
  case (5 s)
  then obtain m where "n = Suc m" by (cases n) auto
  with 5 show ?case using parse_value_string [of m s rest] by auto
next
  case (6 vs)
  let ?J = "join_commas (stringify_elements vs)"
  from "6.prems" have t: "t = ''['' @ ?J @ '']''" by simp
  from "6.prems" obtain m where n: "n = Suc m" by (cases n) auto
  show ?case
  proof (cases vs)
    case Nil
    with n t show ?thesis using parse_value_empty_array [of m rest] by simp
  next
    case (Cons v vs')
    with "6.prems" have st: "storable v" "storable_elements vs" "vs \<noteq> []" by simp_all
    from stringify_elements_first [OF st(1), of vs'] Cons
    obtain c r where cr: "?J = c # r" "opens_value c" by auto
    from "6.prems" n t have fuel: "2 * length ?J + 2 \<le> m" by simp
    have "parse_elements m (?J @ CHR '']'' # rest) = POk (without_undefined_elements vs) rest"
      using st(3,2) fuel by (rule "6.IH")
    then have pe: "parse_elements m (c # r @ CHR '']'' # rest)
        = POk (without_undefined_elements vs) rest"
      by (simp add: cr)
    from opens_value_facts [OF cr(2)] have c: "\<not> isJSONSpace c" "c \<noteq> CHR '']''" by simp_all
    have "parse_value (Suc m) (CHR ''['' # c # (r @ CHR '']'' # rest))
        = POk (JArr (without_undefined_elements vs)) rest"
      unfolding parse_value_array [OF c] pe by simp
    then show ?thesis by (simp add: n t cr)
  qed
next
  case (7 ms)
  let ?J = "join_commas (stringify_members ms)"
  from "7.prems" have t: "t = ''{'' @ ?J @ ''}''" by simp
  from "7.prems" obtain m where n: "n = Suc m" by (cases n) auto
  from "7.prems" have st: "storable_members ms" "distinct (map fst ms)"
    "\<not> list_ex isArrayIndex (map fst ms)" by simp_all
  show ?case
  proof (cases "stringify_members ms = []")
    case True
    then have "without_undefined_members ms = []" by (simp only: stringify_members_empty)
    with True n t show ?thesis using parse_value_empty_object [of m rest] by simp
  next
    case False
    from stringify_members_first [OF False]
    obtain c r where cr: "?J = c # r" "opens_value c" by auto
    from "7.prems" n t have fuel: "2 * length ?J + 2 \<le> m" by simp
    have "parse_members m (?J @ CHR ''}'' # rest) = POk (without_undefined_members ms) rest"
      using False st(1) fuel by (rule "7.IH")
    then have pe: "parse_members m (c # r @ CHR ''}'' # rest)
        = POk (without_undefined_members ms) rest"
      by (simp add: cr)
    from opens_value_facts [OF cr(2)] have c: "\<not> isJSONSpace c" "c \<noteq> CHR ''}''" by simp_all
    have "parse_value (Suc m) (CHR ''{'' # c # (r @ CHR ''}'' # rest))
        = POk (JObj (make_object (without_undefined_members ms))) rest"
      unfolding parse_value_object [OF c] pe by simp
    then show ?thesis by (simp add: n t cr make_object_without_undefined st)
  qed
next
  case 8
  then show ?case by simp
next
  case (9 v vs)
  let ?e = "case JSON_stringify v of None \<Rightarrow> ''null'' | Some t \<Rightarrow> t"
  let ?v = "if v = JUndefined then JNull else without_undefined v"
  from "9.prems" obtain m where n: "n = Suc m" by (cases n) auto
  from "9.prems" have st: "storable v" "storable_elements vs" by simp_all
  have J: "join_commas (stringify_elements (v # vs))
      = (if vs = [] then ?e else ?e @ '','' @ join_commas (stringify_elements vs))"
    by (simp add: join_commas_Cons stringify_elements_empty)
  have pv: "parse_value m (?e @ tail) = POk ?v tail" if "2 * length ?e + 1 \<le> m" for tail
  proof (cases "JSON_stringify v")
    case None
    then have u: "v = JUndefined" by (simp only: JSON_stringify_None)
    from that None obtain m' where "m = Suc m'" by (cases m) auto
    with None u show ?thesis using parse_value_null [of m' tail] by simp
  next
    case (Some e)
    then have "v \<noteq> JUndefined" by auto
    moreover from that Some have "2 * length e + 1 \<le> m" by simp
    with st(1) Some have "parse_value m (e @ tail) = POk (without_undefined v) tail"
      by (rule "9.IH"(1))
    ultimately show ?thesis by (simp add: Some)
  qed
  show ?case
  proof (cases "vs = []")
    case True
    with "9.prems" n J have "2 * length ?e + 1 \<le> m" by simp
    then have "parse_value m (?e @ CHR '']'' # rest) = POk ?v (CHR '']'' # rest)" by (rule pv)
    then have p: "parse_elements (Suc m) (?e @ CHR '']'' # rest) = POk [?v] rest"
      by (rule parse_elements_last)
    have tx: "join_commas (stringify_elements (v # vs)) @ CHR '']'' # rest
        = ?e @ CHR '']'' # rest"
      unfolding J using True by simp
    have w: "without_undefined_elements (v # vs) = [?v]"
      using True by simp
    show ?thesis unfolding n tx w by (rule p)
  next
    case False
    let ?tail = "join_commas (stringify_elements vs) @ CHR '']'' # rest"
    from "9.prems" n J False have f: "2 * length ?e + 1 \<le> m"
      "2 * length (join_commas (stringify_elements vs)) + 2 \<le> m" by simp_all
    from f(1) have "parse_value m (?e @ CHR '','' # ?tail) = POk ?v (CHR '','' # ?tail)"
      by (rule pv)
    then have "parse_elements (Suc m) (?e @ CHR '','' # ?tail)
        = (case parse_elements m ?tail of POk vs r' \<Rightarrow> POk (?v # vs) r' | PErr e \<Rightarrow> PErr e)"
      by (rule parse_elements_more)
    moreover from False st(2) f(2)
    have "parse_elements m ?tail = POk (without_undefined_elements vs) rest"
      by (rule "9.IH"(2))
    ultimately have p: "parse_elements (Suc m) (?e @ CHR '','' # ?tail)
        = POk (?v # without_undefined_elements vs) rest"
      by (simp only: presult.case)
    have tx: "join_commas (stringify_elements (v # vs)) @ CHR '']'' # rest
        = ?e @ CHR '','' # ?tail"
      unfolding J using False by simp
    have w: "without_undefined_elements (v # vs) = ?v # without_undefined_elements vs"
      by simp
    show ?thesis unfolding n tx w by (rule p)
  qed
next
  case 10
  then show ?case by simp
next
  case (11 k v ms)
  from "11.prems" have st: "storable v" "storable_members ms" by simp_all
  show ?case
  proof (cases "JSON_stringify v")
    case None
    then have u: "v = JUndefined" by (simp only: JSON_stringify_None)
    from "11.prems" None have ne: "stringify_members ms \<noteq> []"
      and fuel: "2 * length (join_commas (stringify_members ms)) + 2 \<le> n" by simp_all
    from None ne st(2) fuel
    have "parse_members n (join_commas (stringify_members ms) @ CHR ''}'' # rest)
        = POk (without_undefined_members ms) rest"
      by (rule "11.IH"(2))
    with None u show ?thesis by simp
  next
    case (Some e)
    then have d: "v \<noteq> JUndefined" by auto
    from "11.prems" obtain m where n: "n = Suc m" by (cases n) auto
    let ?m = "QuoteJSONString k @ '':'' @ e"
    have J: "join_commas (stringify_members ((k, v) # ms))
        = (if stringify_members ms = [] then ?m
           else ?m @ '','' @ join_commas (stringify_members ms))"
      by (simp add: Some join_commas_Cons)
    have pv: "parse_value m (e @ tail) = POk (without_undefined v) tail"
      if "2 * length e + 1 \<le> m" for tail
      using st(1) Some that by (rule "11.IH"(1))
    show ?thesis
    proof (cases "stringify_members ms = []")
      case True
      then have w: "without_undefined_members ms = []" by (simp only: stringify_members_empty)
      from "11.prems" n J True have "2 * length e + 1 \<le> m" by simp
      then have "parse_value m (e @ CHR ''}'' # rest) = POk (without_undefined v) (CHR ''}'' # rest)"
        by (rule pv)
      then have p: "parse_members (Suc m) (QuoteJSONString k @ CHR '':'' # e @ CHR ''}'' # rest)
          = POk [(k, without_undefined v)] rest"
        by (rule parse_members_last)
      have tx: "join_commas (stringify_members ((k, v) # ms)) @ CHR ''}'' # rest
          = QuoteJSONString k @ CHR '':'' # e @ CHR ''}'' # rest"
        unfolding J using True by simp
      have wu: "without_undefined_members ((k, v) # ms) = [(k, without_undefined v)]"
        using d w by simp
      show ?thesis unfolding n tx wu by (rule p)
    next
      case False
      let ?tail = "join_commas (stringify_members ms) @ CHR ''}'' # rest"
      from "11.prems" n J False have f: "2 * length e + 1 \<le> m"
        "2 * length (join_commas (stringify_members ms)) + 2 \<le> m" by simp_all
      from f(1) have "parse_value m (e @ CHR '','' # ?tail)
          = POk (without_undefined v) (CHR '','' # ?tail)"
        by (rule pv)
      then have "parse_members (Suc m) (QuoteJSONString k @ CHR '':'' # e @ CHR '','' # ?tail)
          = (case parse_members m ?tail of
               POk ms r' \<Rightarrow> POk ((k, without_undefined v) # ms) r' | PErr e \<Rightarrow> PErr e)"
        by (rule parse_members_more)
      moreover from Some False st(2) f(2)
      have "parse_members m ?tail = POk (without_undefined_members ms) rest"
        by (rule "11.IH"(3))
      ultimately have p: "parse_members (Suc m)
            (QuoteJSONString k @ CHR '':'' # e @ CHR '','' # ?tail)
          = POk ((k, without_undefined v) # without_undefined_members ms) rest"
        by (simp only: presult.case)
      have tx: "join_commas (stringify_members ((k, v) # ms)) @ CHR ''}'' # rest
          = QuoteJSONString k @ CHR '':'' # e @ CHR '','' # ?tail"
        unfolding J using False by simp
      have wu: "without_undefined_members ((k, v) # ms)
          = (k, without_undefined v) # without_undefined_members ms"
        using d by simp
      show ?thesis unfolding n tx wu by (rule p)
    qed
  qed
qed

text \<open>
  \<open>JSON.parse\<close> reads the text of a value back as what JSON keeps of it: the value itself
  when it holds \<open>undefined\<close> nowhere.
\<close>

lemma JSON_roundtrip:
  "storable v \<Longrightarrow> JSON_stringify v = Some t \<Longrightarrow> JSON_parse t = Normal (without_undefined v)"
  using parse_stringify(1) [of v t "2 * length t + 2" "[]"]
  by (simp add: JSON_parse_def skip_ws_def)

lemma plain_storable:
  "plain v \<Longrightarrow> storable v \<and> without_undefined v = v"
  and plain_elements_storable:
    "plain_elements vs \<Longrightarrow> storable_elements vs \<and> without_undefined_elements vs = vs"
  and plain_members_storable:
    "plain_members ms \<Longrightarrow> storable_members ms \<and> without_undefined_members ms = ms"
proof (induction v and vs and ms rule: plain_plain_elements_plain_members.induct)
  case (9 v vs)
  then have "v \<noteq> JUndefined" by auto
  with 9 show ?case by simp
next
  case (11 k v ms)
  then have "v \<noteq> JUndefined" by auto
  with 11 show ?case by simp
qed simp_all

text \<open>What JSON keeps of a value holds \<open>undefined\<close> nowhere, and is kept as it is.\<close>

lemma plain_without_undefined:
  "storable v \<Longrightarrow> v \<noteq> JUndefined \<Longrightarrow> plain (without_undefined v)"
  and plain_without_undefined_elements:
    "storable_elements vs \<Longrightarrow> plain_elements (without_undefined_elements vs)"
  and plain_without_undefined_members:
    "storable_members ms \<Longrightarrow> plain_members (without_undefined_members ms)"
proof (induction v and vs and ms rule: without_undefined_without_undefined_elements_without_undefined_members.induct)
  case (7 ms)
  from "7.prems" have d: "distinct (map fst ms)" "\<not> list_ex isArrayIndex (map fst ms)"
    "storable_members ms" by simp_all
  from d(1) have "distinct (map fst (without_undefined_members ms))"
    unfolding keys_without_undefined by (rule distinct_map_filter)
  moreover from d(2) have "\<not> list_ex isArrayIndex (map fst (without_undefined_members ms))"
    unfolding keys_without_undefined by (auto simp: list_ex_iff)
  moreover from d(3) have "plain_members (without_undefined_members ms)" by (rule "7.IH")
  ultimately show ?case by simp
qed simp_all


subsection \<open>The parser consumes its input, and its bound is never reached\<close>

lemma skip_ws_length: "length (skip_ws s) \<le> length s"
  by (simp add: skip_ws_def length_dropWhile_le)

lemma skip_ws_Cons_length: "skip_ws s = c # r \<Longrightarrow> length r < length s"
  using skip_ws_length [of s] by simp

lemma pcons_POk: "pcons c p = POk x r \<Longrightarrow> \<exists>y. p = POk y r"
  by (cases p) (auto simp: pcons_def)

lemma parse_chars_consumes: "parse_chars s = POk x r \<Longrightarrow> length r < length s"
proof (induction s arbitrary: x rule: parse_chars.induct)
  case 1
  then show ?case by simp
next
  case (2 c s)
  show ?case
  proof (cases "c = CHR 0x22")
    case True
    with "2.prems" show ?thesis by simp
  next
    case q: False
    show ?thesis
    proof (cases "c = CHR 0x5C")
      case True
      from "2.prems" q True obtain e s1 where s: "s = e # s1" by (cases s) auto
      show ?thesis
      proof (cases "e = CHR ''u''")
        case u: True
        from "2.prems" q True s u obtain h1 h2 h3 h4 s2 where s1: "s1 = h1 # h2 # h3 # h4 # s2"
          by (auto split: list.splits)
        from "2.prems" q True s u s1 obtain k where k: "hex4 h1 h2 h3 h4 = Some k" "k < 256"
          by (auto split: option.splits if_splits)
        with "2.prems" q True s u s1 obtain y where "parse_chars s2 = POk y r"
          by (auto dest: pcons_POk)
        with "2.IH"(1) [OF q True s u s1 refl refl refl k(1) k(2)] have "length r < length s2" by simp
        with s s1 show ?thesis by simp
      next
        case nu: False
        from "2.prems" q True s nu obtain d where d: "unescape e = Some d"
          by (auto split: option.splits)
        with "2.prems" q True s nu obtain y where "parse_chars s1 = POk y r"
          by (auto dest: pcons_POk)
        with "2.IH"(2) [OF q True s nu d] have "length r < length s1" by simp
        with s show ?thesis by simp
      qed
    next
      case b: False
      from "2.prems" q b have nc: "\<not> c < CHR 0x20" by (auto split: if_splits)
      with "2.prems" q b obtain y where "parse_chars s = POk y r"
        by (auto dest: pcons_POk)
      with "2.IH"(3) [OF q b nc] show ?thesis by simp
    qed
  qed
qed

lemma digits1_consumes: "digits1 s = Some (d, r) \<Longrightarrow> length r < length s"
proof -
  assume a: "digits1 s = Some (d, r)"
  then have r: "r = dropWhile isDigit s" and ne: "takeWhile isDigit s \<noteq> []"
    by (auto simp: digits1_def split: if_splits)
  have "length (takeWhile isDigit s) + length (dropWhile isDigit s) = length s"
    by (metis length_append takeWhile_dropWhile_id)
  moreover from ne have "0 < length (takeWhile isDigit s)" by simp
  ultimately have "length (dropWhile isDigit s) < length s" by linarith
  with r show ?thesis by simp
qed

lemma parse_int_part_consumes: "parse_int_part s = Some (d, r) \<Longrightarrow> length r < length s"
proof (cases s)
  case Nil
  assume "parse_int_part s = Some (d, r)"
  with Nil show ?thesis by (simp add: parse_int_part_def)
next
  case (Cons c t)
  assume a: "parse_int_part s = Some (d, r)"
  show ?thesis
  proof (cases "c = CHR ''0''")
    case True
    with a Cons show ?thesis by (simp add: parse_int_part_def)
  next
    case False
    with a Cons have "digits1 s = Some (d, r)" by (simp add: parse_int_part_def)
    then show ?thesis by (rule digits1_consumes)
  qed
qed

lemma parse_fraction_consumes: "parse_fraction s = Some (d, r) \<Longrightarrow> length r \<le> length s"
proof (cases s)
  case Nil
  assume "parse_fraction s = Some (d, r)"
  with Nil show ?thesis by (simp add: parse_fraction_def)
next
  case (Cons c t)
  assume a: "parse_fraction s = Some (d, r)"
  show ?thesis
  proof (cases "c = CHR ''.''")
    case True
    with a Cons obtain ds where "digits1 t = Some (ds, r)"
      by (auto simp: parse_fraction_def split: option.splits)
    then have "length r < length t" by (rule digits1_consumes)
    with Cons show ?thesis by simp
  next
    case False
    with a Cons show ?thesis by (simp add: parse_fraction_def)
  qed
qed

lemma parse_exponent_consumes: "parse_exponent s = Some (d, r) \<Longrightarrow> length r \<le> length s"
proof (cases s)
  case Nil
  assume "parse_exponent s = Some (d, r)"
  with Nil show ?thesis by (simp add: parse_exponent_def)
next
  case (Cons c t)
  assume a: "parse_exponent s = Some (d, r)"
  show ?thesis
  proof (cases "c = CHR ''e'' \<or> c = CHR ''E''")
    case True
    with a Cons obtain g t1 where t: "t = g # t1"
      by (cases t) (auto simp: parse_exponent_def)
    show ?thesis
    proof (cases "g = CHR ''+'' \<or> g = CHR ''-''")
      case sg: True
      with a Cons True t obtain ds where "digits1 t1 = Some (ds, r)"
        by (auto simp: parse_exponent_def split: option.splits)
      then have "length r < length t1" by (rule digits1_consumes)
      with Cons t show ?thesis by simp
    next
      case False
      with a Cons True t obtain ds where "digits1 t = Some (ds, r)"
        by (auto simp: parse_exponent_def split: option.splits)
      then have "length r < length t" by (rule digits1_consumes)
      with Cons show ?thesis by simp
    qed
  next
    case False
    with a Cons show ?thesis by (simp add: parse_exponent_def)
  qed
qed

lemma parse_number_consumes: "parse_number s = Some (l, r) \<Longrightarrow> length r < length s"
proof -
  assume a: "parse_number s = Some (l, r)"
  define p where "p = (case s of [] \<Rightarrow> ([], s) | c # t \<Rightarrow> if c = CHR ''-'' then ([c], t) else ([], s))"
  obtain sign s0 where ss: "p = (sign, s0)" by (cases p)
  have l0: "length s0 \<le> length s"
    using ss unfolding p_def by (cases s) (auto split: if_splits)
  from a have b: "(case parse_int_part s0 of None \<Rightarrow> None
         | Some (ip, s1) \<Rightarrow>
             (case parse_fraction s1 of None \<Rightarrow> None
              | Some (fp, s2) \<Rightarrow>
                  (case parse_exponent s2 of None \<Rightarrow> None
                   | Some (ep, s3) \<Rightarrow> Some (sign @ ip @ fp @ ep, s3)))) = Some (l, r)"
    unfolding parse_number_def p_def [symmetric] ss by simp
  then obtain ip s1 where 1: "parse_int_part s0 = Some (ip, s1)"
    by (cases "parse_int_part s0") auto
  with b obtain fp s2 where 2: "parse_fraction s1 = Some (fp, s2)"
    by (cases "parse_fraction s1") auto
  with b 1 obtain ep where 3: "parse_exponent s2 = Some (ep, r)"
    by (cases "parse_exponent s2") auto
  from parse_int_part_consumes [OF 1] parse_fraction_consumes [OF 2] parse_exponent_consumes [OF 3] l0
  show ?thesis by simp
qed

lemma parse_consumes:
  "parse_value n s = POk v r \<Longrightarrow> length r < length s"
  "parse_elements n s = POk vs r \<Longrightarrow> length r < length s"
  "parse_members n s = POk ms r \<Longrightarrow> length r < length s"
proof (induction n s and n s and n s arbitrary: v r and vs r and ms r
    rule: parse_value_parse_elements_parse_members.induct)
  case (1 s)
  then show ?case by simp
next
  case (2 n s)
  from "2.prems" obtain c t where ct: "skip_ws s = c # t"
    by (cases "skip_ws s") auto
  then have lt: "length t < length s" by (rule skip_ws_Cons_length)
  have le: "length (c # t) \<le> length s" using skip_ws_length [of s] ct by simp
  consider (obj) "c = CHR ''{''" | (arr) "c \<noteq> CHR ''{''" "c = CHR ''[''"
    | (str) "c \<noteq> CHR ''{''" "c \<noteq> CHR ''[''" "c = CHR 0x22"
    | (other) "c \<noteq> CHR ''{''" "c \<noteq> CHR ''[''" "c \<noteq> CHR 0x22" by blast
  then show ?case
  proof cases
    case obj
    from "2.prems" ct obj obtain d t' where dt: "skip_ws t = d # t'"
      by (cases "skip_ws t") auto
    then have lt': "length (d # t') \<le> length t" using skip_ws_length [of t] by simp
    show ?thesis
    proof (cases "d = CHR ''}''")
      case True
      with "2.prems" ct obj dt have "r = t'" by simp
      with lt lt' show ?thesis by simp
    next
      case False
      with "2.prems" ct obj dt obtain ms where "parse_members n (d # t') = POk ms r"
        by (auto split: presult.splits)
      with "2.IH"(1) [OF ct obj dt False] have "length r < length (d # t')" by blast
      with lt lt' show ?thesis by simp
    qed
  next
    case arr
    from "2.prems" ct arr obtain d t' where dt: "skip_ws t = d # t'"
      by (cases "skip_ws t") auto
    then have lt': "length (d # t') \<le> length t" using skip_ws_length [of t] by simp
    show ?thesis
    proof (cases "d = CHR '']''")
      case True
      with "2.prems" ct arr dt have "r = t'" by simp
      with lt lt' show ?thesis by simp
    next
      case False
      with "2.prems" ct arr dt obtain xs where "parse_elements n (d # t') = POk xs r"
        by (auto split: presult.splits)
      with "2.IH"(2) [OF ct arr dt False] have "length r < length (d # t')" by blast
      with lt lt' show ?thesis by simp
    qed
  next
    case str
    with "2.prems" ct obtain x where "parse_chars t = POk x r"
      by (auto split: presult.splits)
    then have "length r < length t" by (rule parse_chars_consumes)
    with lt show ?thesis by simp
  next
    case other
    with "2.prems" ct have
      "r = drop 4 (c # t) \<or> r = drop 5 (c # t) \<or> (\<exists>lit. parse_number (c # t) = Some (lit, r))"
      by (auto split: if_splits option.splits)
    then have "length r < length (c # t)"
      by (elim disjE exE) (auto dest: parse_number_consumes)
    with le show ?thesis by simp
  qed
next
  case (3 s)
  then show ?case by simp
next
  case (4 n s)
  from "4.prems" obtain v r1 where v: "parse_value n s = POk v r1"
    by (cases "parse_value n s") auto
  with "4.IH"(1) have l1: "length r1 < length s" by blast
  from "4.prems" v obtain c t where ct: "skip_ws r1 = c # t"
    by (cases "skip_ws r1") auto
  then have lt: "length t < length r1" by (rule skip_ws_Cons_length)
  show ?case
  proof (cases "c = CHR '',''")
    case True
    with "4.prems" v ct obtain xs where "parse_elements n t = POk xs r"
      by (auto split: presult.splits)
    with "4.IH"(2) [OF v ct True] have "length r < length t" by blast
    with l1 lt show ?thesis by simp
  next
    case False
    with "4.prems" v ct have "r = t" by (auto split: if_splits)
    with l1 lt show ?thesis by simp
  qed
next
  case (5 s)
  then show ?case by simp
next
  case (6 n s)
  from "6.prems" obtain q t where qt: "skip_ws s = q # t"
    by (cases "skip_ws s") auto
  then have lt: "length t < length s" by (rule skip_ws_Cons_length)
  from "6.prems" qt have q: "\<not> q \<noteq> CHR 0x22" by (auto split: if_splits)
  from "6.prems" qt q obtain k r1 where k: "parse_chars t = POk k r1"
    by (cases "parse_chars t") auto
  then have l1: "length r1 < length t" by (rule parse_chars_consumes)
  from "6.prems" qt q k obtain c r2 where c: "skip_ws r1 = c # r2"
    by (cases "skip_ws r1") auto
  then have l2: "length r2 < length r1" by (rule skip_ws_Cons_length)
  from "6.prems" qt q k c have col: "\<not> c \<noteq> CHR '':''" by (auto split: if_splits)
  from "6.prems" qt q k c col obtain v r3 where v: "parse_value n r2 = POk v r3"
    by (cases "parse_value n r2") auto
  with "6.IH"(1) [OF qt q k c col] have l3: "length r3 < length r2" by blast
  from "6.prems" qt q k c col v obtain d r4 where d: "skip_ws r3 = d # r4"
    by (cases "skip_ws r3") auto
  then have l4: "length r4 < length r3" by (rule skip_ws_Cons_length)
  show ?case
  proof (cases "d = CHR '',''")
    case True
    with "6.prems" qt q k c col v d obtain xs where "parse_members n r4 = POk xs r"
      by (auto split: presult.splits)
    with "6.IH"(2) [OF qt q k c col v d True] have "length r < length r4" by blast
    with lt l1 l2 l3 l4 show ?thesis by simp
  next
    case False
    with "6.prems" qt q k c col v d have "r = r4" by (auto split: if_splits)
    with lt l1 l2 l3 l4 show ?thesis by simp
  qed
qed

lemma pcons_NoFuel: "pcons c p = PErr NoFuel \<Longrightarrow> p = PErr NoFuel"
  by (cases p) (auto simp: pcons_def)

lemma parse_chars_fuel: "parse_chars s \<noteq> PErr NoFuel"
proof (induction s rule: parse_chars.induct)
  case 1
  then show ?case by simp
next
  case (2 c s)
  show ?case
  proof
    assume a: "parse_chars (c # s) = PErr NoFuel"
    then have q: "c \<noteq> CHR 0x22" by (auto split: if_splits)
    show False
    proof (cases "c = CHR 0x5C")
      case True
      from a q True obtain e s1 where s: "s = e # s1" by (cases s) auto
      show ?thesis
      proof (cases "e = CHR ''u''")
        case u: True
        from a q True s u obtain h1 h2 h3 h4 s2 where s1: "s1 = h1 # h2 # h3 # h4 # s2"
          by (auto split: list.splits)
        from a q True s u s1 obtain k where k: "hex4 h1 h2 h3 h4 = Some k" "k < 256"
          by (auto split: option.splits if_splits)
        with a q True s u s1 have "parse_chars s2 = PErr NoFuel"
          by (auto dest: pcons_NoFuel)
        with "2.IH"(1) [OF q True s u s1 refl refl refl k(1) k(2)] show False by simp
      next
        case nu: False
        from a q True s nu obtain d where d: "unescape e = Some d"
          by (auto split: option.splits)
        with a q True s nu have "parse_chars s1 = PErr NoFuel"
          by (auto dest: pcons_NoFuel)
        with "2.IH"(2) [OF q True s nu d] show False by simp
      qed
    next
      case b: False
      from a q b have nc: "\<not> c < CHR 0x20" by (auto split: if_splits)
      with a q b have "parse_chars s = PErr NoFuel"
        by (auto dest: pcons_NoFuel)
      with "2.IH"(3) [OF q b nc] show False by simp
    qed
  qed
qed

lemma parse_fuel:
  "2 * length s + 1 \<le> n \<Longrightarrow> parse_value n s \<noteq> PErr NoFuel"
  "2 * length s + 2 \<le> n \<Longrightarrow> parse_elements n s \<noteq> PErr NoFuel"
  "2 * length s + 2 \<le> n \<Longrightarrow> parse_members n s \<noteq> PErr NoFuel"
proof (induction n s and n s and n s
    rule: parse_value_parse_elements_parse_members.induct)
  case (1 s)
  then show ?case by simp
next
  case (2 n s)
  show ?case
  proof
    assume a: "parse_value (Suc n) s = PErr NoFuel"
    then obtain c t where ct: "skip_ws s = c # t"
      by (cases "skip_ws s") auto
    then have lt: "length t < length s" by (rule skip_ws_Cons_length)
    consider (obj) "c = CHR ''{''" | (arr) "c \<noteq> CHR ''{''" "c = CHR ''[''"
      | (str) "c \<noteq> CHR ''{''" "c \<noteq> CHR ''[''" "c = CHR 0x22"
      | (other) "c \<noteq> CHR ''{''" "c \<noteq> CHR ''[''" "c \<noteq> CHR 0x22" by blast
    then show False
    proof cases
      case obj
      from a ct obj obtain d t' where dt: "skip_ws t = d # t'"
        by (cases "skip_ws t") auto
      then have lt': "length (d # t') \<le> length t" using skip_ws_length [of t] by simp
      from a ct obj dt have nb: "d \<noteq> CHR ''}''" by auto
      with a ct obj dt have "parse_members n (d # t') = PErr NoFuel"
        by (auto split: presult.splits)
      moreover from "2.prems" lt lt' have "2 * length (d # t') + 2 \<le> n" by simp
      ultimately show False using "2.IH"(1) [OF ct obj dt nb] by simp
    next
      case arr
      from a ct arr obtain d t' where dt: "skip_ws t = d # t'"
        by (cases "skip_ws t") auto
      then have lt': "length (d # t') \<le> length t" using skip_ws_length [of t] by simp
      from a ct arr dt have nb: "d \<noteq> CHR '']''" by auto
      with a ct arr dt have "parse_elements n (d # t') = PErr NoFuel"
        by (auto split: presult.splits)
      moreover from "2.prems" lt lt' have "2 * length (d # t') + 2 \<le> n" by simp
      ultimately show False using "2.IH"(2) [OF ct arr dt nb] by simp
    next
      case str
      with a ct have "parse_chars t = PErr NoFuel"
        by (auto split: presult.splits)
      then show False by (simp add: parse_chars_fuel)
    next
      case other
      with a ct show False by (auto split: if_splits option.splits)
    qed
  qed
next
  case (3 s)
  then show ?case by simp
next
  case (4 n s)
  show ?case
  proof
    assume a: "parse_elements (Suc n) s = PErr NoFuel"
    from "4.prems" have f1: "2 * length s + 1 \<le> n" by simp
    with "4.IH"(1) have nf: "parse_value n s \<noteq> PErr NoFuel" by simp
    with a obtain v r1 where v: "parse_value n s = POk v r1"
      by (cases "parse_value n s") auto
    then have l1: "length r1 < length s" by (rule parse_consumes)
    from a v obtain c t where ct: "skip_ws r1 = c # t"
      by (cases "skip_ws r1") auto
    then have lt: "length t < length r1" by (rule skip_ws_Cons_length)
    from a v ct have cm: "c = CHR '',''" by (auto split: if_splits)
    with a v ct have "parse_elements n t = PErr NoFuel"
      by (auto split: presult.splits)
    moreover from "4.prems" l1 lt have "2 * length t + 2 \<le> n" by simp
    ultimately show False using "4.IH"(2) [OF v ct cm] by simp
  qed
next
  case (5 s)
  then show ?case by simp
next
  case (6 n s)
  show ?case
  proof
    assume a: "parse_members (Suc n) s = PErr NoFuel"
    then obtain q t where qt: "skip_ws s = q # t"
      by (cases "skip_ws s") auto
    then have lt: "length t < length s" by (rule skip_ws_Cons_length)
    from a qt have q: "\<not> q \<noteq> CHR 0x22" by (auto split: if_splits)
    from a qt q parse_chars_fuel [of t] obtain k r1 where k: "parse_chars t = POk k r1"
      by (cases "parse_chars t") auto
    then have l1: "length r1 < length t" by (rule parse_chars_consumes)
    from a qt q k obtain c r2 where c: "skip_ws r1 = c # r2"
      by (cases "skip_ws r1") auto
    then have l2: "length r2 < length r1" by (rule skip_ws_Cons_length)
    from a qt q k c have col: "\<not> c \<noteq> CHR '':''" by (auto split: if_splits)
    from "6.prems" lt l1 l2 have "2 * length r2 + 1 \<le> n" by simp
    with "6.IH"(1) [OF qt q k c col] have nf: "parse_value n r2 \<noteq> PErr NoFuel" by simp
    with a qt q k c col obtain v r3 where v: "parse_value n r2 = POk v r3"
      by (cases "parse_value n r2") auto
    then have l3: "length r3 < length r2" by (rule parse_consumes)
    from a qt q k c col v obtain d r4 where d: "skip_ws r3 = d # r4"
      by (cases "skip_ws r3") auto
    then have l4: "length r4 < length r3" by (rule skip_ws_Cons_length)
    from a qt q k c col v d have cm: "d = CHR '',''" by (auto split: if_splits)
    with a qt q k c col v d have "parse_members n r4 = PErr NoFuel"
      by (auto split: presult.splits)
    moreover from "6.prems" lt l1 l2 l3 l4 have "2 * length r4 + 2 \<le> n" by simp
    ultimately show False using "6.IH"(2) [OF qt q k c col v d cm] by simp
  qed
qed


text \<open>So \<open>JSON_parse\<close> is unmodelled only for a text with an escape above \<open>\u00ff\<close>.\<close>

lemma JSON_parse_Unmodelled:
  "JSON_parse text = Unmodelled \<longleftrightarrow> parse_value (2 * length text + 2) text = PErr WideEscape"
proof -
  have "parse_value (2 * length text + 2) text \<noteq> PErr NoFuel"
    by (rule parse_fuel) simp
  then show ?thesis
    by (auto simp: JSON_parse_def split: presult.splits parse_error.splits if_splits)
qed


section \<open>Loading and saving\<close>

text \<open>
  C1. \<open>getStudents\<close> never raises, whatever the browser and the state of the storage. In a
  browser (\<open>window\<close> defined) it returns the sample set of three records when reading the
  storage throws, when nothing is stored under the key, when the stored text does not
  parse, and when it parses to something that is not an array. (The model leaves the
  result open only for a stored text with an escape above \<open>\u00ff\<close>, whose strings it cannot
  hold.)
\<close>

theorem getStudents_degrades_to_defaults:
  "fst (getStudents env) \<noteq> Throw e
   \<and> (fst (getStudents env) = Unmodelled \<longrightarrow>
        (\<exists>stored. items env STORAGE_KEY = Some stored \<and> JSON_parse stored = Unmodelled))
   \<and> (window_defined env \<longrightarrow>
        (storage_denied env \<longrightarrow> fst (getStudents env) = Normal getDefaultStudents)
      \<and> (\<not> storage_denied env \<and> items env STORAGE_KEY = None
           \<longrightarrow> fst (getStudents env) = Normal getDefaultStudents)
      \<and> (\<not> storage_denied env \<and> items env STORAGE_KEY = Some stored
           \<and> JSON_parse stored = Throw e'
           \<longrightarrow> fst (getStudents env) = Normal getDefaultStudents)
      \<and> (\<not> storage_denied env \<and> items env STORAGE_KEY = Some stored
           \<and> JSON_parse stored = Normal v \<and> \<not> isArray v
           \<longrightarrow> fst (getStudents env) = Normal getDefaultStudents))
   \<and> map (\<lambda>s. property s ''name'') getDefaultStudents
       = [Some (JStr ''Alice Johnson''), Some (JStr ''Bob Smith''), Some (JStr ''Carol Davis'')]"
proof -
  have 1: "fst (getStudents env) \<noteq> Throw e"
    by (auto simp: storage_defs truthy_def
        split: prod.splits completion.splits option.splits json.splits if_splits)
  have 2: "\<exists>stored. items env STORAGE_KEY = Some stored \<and> JSON_parse stored = Unmodelled"
    if "fst (getStudents env) = Unmodelled"
    using that
    by (auto simp: storage_defs truthy_def
        split: prod.splits completion.splits option.splits json.splits if_splits)
  have 3: "fst (getStudents env) = Normal getDefaultStudents"
    if "window_defined env" "storage_denied env"
    using that by (simp add: storage_defs)
  have 4: "fst (getStudents env) = Normal getDefaultStudents"
    if "window_defined env" "\<not> storage_denied env" "items env STORAGE_KEY = None"
    using that by (simp add: storage_defs truthy_def)
  have 5: "fst (getStudents env) = Normal getDefaultStudents"
    if "window_defined env" "\<not> storage_denied env" "items env STORAGE_KEY = Some stored"
      "JSON_parse stored = Throw e'"
    using that by (simp add: storage_defs truthy_def)
  have 6: "fst (getStudents env) = Normal getDefaultStudents"
    if "window_defined env" "\<not> storage_denied env" "items env STORAGE_KEY = Some stored"
      "JSON_parse stored = Normal v" "\<not> isArray v"
    using that by (cases v) (simp_all add: storage_defs truthy_def isArray_def)
  have 7: "map (\<lambda>s. property s ''name'') getDefaultStudents
       = [Some (JStr ''Alice Johnson''), Some (JStr ''Bob Smith''), Some (JStr ''Carol Davis'')]"
    by (simp add: getDefaultStudents_def property_def)
  from 1 2 3 4 5 6 7 show ?thesis by blast
qed

lemma JSON_parse_not_json: "JSON_parse ''not json'' = Throw SyntaxError"
  by code_simp

lemma JSON_parse_empty_object: "JSON_parse ''{}'' = Normal (JObj [])"
  by code_simp

theorem getStudents_degrades_to_defaults_witness:
  "fst (getStudents denied_browser) = Normal getDefaultStudents
   \<and> fst (getStudents (browser_with None)) = Normal getDefaultStudents
   \<and> fst (getStudents (browser_with (Some ''not json''))) = Normal getDefaultStudents
   \<and> fst (getStudents (browser_with (Some ''{}''))) = Normal getDefaultStudents"
proof -
  have 1: "fst (getStudents denied_browser) = Normal getDefaultStudents"
    using getStudents_degrades_to_defaults [of denied_browser]
    by (simp add: denied_browser_def)
  have 2: "fst (getStudents (browser_with None)) = Normal getDefaultStudents"
    using getStudents_degrades_to_defaults [of "browser_with None"]
    by (simp add: browser_with_def)
  have 3: "fst (getStudents (browser_with (Some ''not json''))) = Normal getDefaultStudents"
    using getStudents_degrades_to_defaults
      [of "browser_with (Some ''not json'')" _ "''not json''" SyntaxError]
      JSON_parse_not_json
    by (simp add: browser_with_def)
  have 4: "fst (getStudents (browser_with (Some ''{}''))) = Normal getDefaultStudents"
    using getStudents_degrades_to_defaults
      [of "browser_with (Some ''{}'')" _ "''{}''" _ "JObj []"]
      JSON_parse_empty_object
    by (simp add: browser_with_def isArray_def)
  from 1 2 3 4 show ?thesis by simp
qed

text \<open>
  C9. Without a \<open>window\<close> (server-side rendering), \<open>getStudents\<close> returns the empty list,
  not the sample set, and \<open>saveStudents\<close> and \<open>clearStudents\<close> return \<open>false\<close>; none of
  them touches the storage (the browser, with its record of storage calls, is unchanged).
\<close>

theorem no_window_no_storage_access:
  "\<not> window_defined env \<longrightarrow>
     getStudents env = (Normal [], env)
     \<and> saveStudents studs env = (Normal False, env)
     \<and> clearStudents env = (Normal False, env)
     \<and> [] \<noteq> getDefaultStudents"
  by (simp add: storage_defs getDefaultStudents_def)

theorem no_window_no_storage_access_witness:
  "getStudents ssr_env = (Normal [], ssr_env)
   \<and> saveStudents getDefaultStudents ssr_env = (Normal False, ssr_env)
   \<and> clearStudents ssr_env = (Normal False, ssr_env)
   \<and> calls (snd (saveStudents getDefaultStudents ssr_env)) = []"
proof -
  have h: "\<not> window_defined ssr_env" by (simp add: ssr_env_def)
  have c: "calls ssr_env = []" by (simp add: ssr_env_def)
  from no_window_no_storage_access [of ssr_env getDefaultStudents] h
  have "getStudents ssr_env = (Normal [], ssr_env)
     \<and> saveStudents getDefaultStudents ssr_env = (Normal False, ssr_env)
     \<and> clearStudents ssr_env = (Normal False, ssr_env)"
    by blast
  with c show ?thesis by simp
qed


subsection \<open>The round trip through the storage\<close>

lemma JSON_stringify_array:
  "JSON_stringify (JArr R) = Some (''['' @ join_commas (stringify_elements R) @ '']'')"
  by simp

lemma saveStudents_ok:
  assumes "window_defined env" "\<not> storage_denied env" "\<not> storage_full env"
    and "JSON_stringify (JArr R) = Some t"
  shows "saveStudents R env
     = (Normal True, env\<lparr>items := (items env)(STORAGE_KEY \<mapsto> t),
                          calls := calls env @ [SetItem STORAGE_KEY t]\<rparr>)"
  using assms by (simp add: storage_defs)

lemma saveStudents_calls:
  assumes "window_defined env" and "JSON_stringify (JArr R) = Some t"
  shows "calls (snd (saveStudents R env)) = calls env @ [SetItem STORAGE_KEY t]"
  using assms by (simp add: storage_defs)

lemma getStudents_parsed:
  assumes "window_defined env" "\<not> storage_denied env" "items env STORAGE_KEY = Some stored"
    "stored \<noteq> []" "JSON_parse stored = Normal (JArr R)"
  shows "fst (getStudents env) = Normal R"
  using assms by (simp add: storage_defs truthy_def)

lemma load_after_save:
  assumes "window_defined env" "\<not> storage_denied env" "\<not> storage_full env"
    and "storable_elements R"
  shows "fst (getStudents (snd (saveStudents R env))) = Normal (without_undefined_elements R)"
proof -
  let ?stored = "''['' @ join_commas (stringify_elements R) @ '']''"
  let ?env = "env\<lparr>items := (items env)(STORAGE_KEY \<mapsto> ?stored),
                   calls := calls env @ [SetItem STORAGE_KEY ?stored]\<rparr>"
  have t: "JSON_stringify (JArr R) = Some ?stored" by (rule JSON_stringify_array)
  from assms(1-3) t have s: "saveStudents R env = (Normal True, ?env)" by (rule saveStudents_ok)
  from assms(4) have "storable (JArr R)" by simp
  then have "JSON_parse ?stored = Normal (without_undefined (JArr R))"
    using t by (rule JSON_roundtrip)
  then have j: "JSON_parse ?stored = Normal (JArr (without_undefined_elements R))" by simp
  have "fst (getStudents ?env) = Normal (without_undefined_elements R)"
    using assms(1,2) j by (intro getStudents_parsed [where stored = ?stored]) simp_all
  with s show ?thesis by simp
qed

subsection \<open>Records of strings\<close>

lemma flat_record_storable: "flat_record ps \<Longrightarrow> storable (JObj ps)"
proof -
  have "list_all (\<lambda>p. case snd p of JUndefined \<Rightarrow> True | JStr s \<Rightarrow> True | _ \<Rightarrow> False) ms
      \<Longrightarrow> storable_members ms" for ms
  proof (induction ms)
    case Nil
    then show ?case by simp
  next
    case (Cons p ms)
    obtain k v where p: "p = (k, v)" by (cases p)
    with Cons show ?case by (cases v) simp_all
  qed
  then show "flat_record ps \<Longrightarrow> storable (JObj ps)" by (simp add: flat_record_def)
qed

lemma flat_record_without_undefined:
  "flat_record ps \<Longrightarrow> without_undefined_members ps = defined_properties ps"
proof -
  have "list_all (\<lambda>p. case snd p of JUndefined \<Rightarrow> True | JStr s \<Rightarrow> True | _ \<Rightarrow> False) ms
      \<Longrightarrow> without_undefined_members ms = filter (\<lambda>p. snd p \<noteq> JUndefined) ms" for ms
  proof (induction ms)
    case Nil
    then show ?case by simp
  next
    case (Cons p ms)
    obtain k v where p: "p = (k, v)" by (cases p)
    with Cons show ?case by (cases v) simp_all
  qed
  then show "flat_record ps \<Longrightarrow> without_undefined_members ps = defined_properties ps"
    by (simp add: flat_record_def defined_properties_def)
qed

lemma flat_records_storable: "list_all flat_record S \<Longrightarrow> storable_elements (map JObj S)"
proof (induction S)
  case Nil
  then show ?case by simp
next
  case (Cons ps S)
  then have "storable (JObj ps)" and "storable_elements (map JObj S)"
    by (simp_all add: flat_record_storable del: storable.simps)
  then show ?case by (simp del: storable.simps)
qed

lemma flat_records_without_undefined:
  "list_all flat_record S \<Longrightarrow>
     without_undefined_elements (map JObj S) = map (\<lambda>ps. JObj (defined_properties ps)) S"
  by (induction S) (simp_all add: flat_record_without_undefined)

text \<open>Reading a field of a record gives the same with and without the \<open>undefined\<close> fields.\<close>

lemma get_property_defined:
  "distinct (map fst ps) \<Longrightarrow> get_property (defined_properties ps) k = get_property ps k"
proof (induction ps)
  case Nil
  then show ?case by (simp add: defined_properties_def)
next
  case (Cons p ps)
  obtain a v where p: "p = (a, v)" by (cases p)
  from Cons.prems p have a: "a \<notin> fst ` set ps" and d: "distinct (map fst ps)" by simp_all
  from a have "a \<notin> fst ` set (filter (\<lambda>p. snd p \<noteq> JUndefined) ps)" by auto
  then have n: "map_of (filter (\<lambda>p. snd p \<noteq> JUndefined) ps) a = None"
    by (simp add: map_of_eq_None_iff)
  from Cons.IH [OF d] n show ?case
    by (simp add: p defined_properties_def get_property_def obj_get_def)
qed


subsection \<open>The sample dashboard\<close>

lemma sample_studentData:
  "studentData None sample_form ''2024-03-01''
     = [(''name'', JStr ''Dan Brown''), (''email'', JStr ''dan@example.com''),
        (''course'', JStr ''CS''), (''profileImage'', JUndefined),
        (''enrollmentDate'', JStr ''2024-03-01''), (''status'', JStr ''active'')]"
  by (simp add: studentData_def sample_form_def truthy_def trim_def isWhiteSpace_def
      toLowerCase_def toLowerChar_def status_text_def js_char_simps)

lemma students_sample_dashboard:
  "students sample_dashboard
     = [first_sample_record,
        [(''name'', JStr ''Dan Brown''), (''email'', JStr ''dan@example.com''),
         (''course'', JStr ''CS''), (''profileImage'', JUndefined),
         (''enrollmentDate'', JStr ''2024-03-01''), (''status'', JStr ''active''),
         (''id'', JStr ''1700000000000'')]]"
  by (simp add: sample_dashboard_def handleAddStudent_def Let_def sample_studentData
      loaded_dashboard_def make_object_def obj_set_def isArrayIndex_def isDigit_def)

lemma flat_sample_dashboard: "list_all flat_record (students sample_dashboard)"
  by (simp add: students_sample_dashboard first_sample_record_def flat_record_def
      isArrayIndex_def isDigit_def)

lemma defined_sample_dashboard:
  "map (\<lambda>ps. JObj (defined_properties ps)) (students sample_dashboard)
     = [JObj first_sample_record,
        JObj [(''name'', JStr ''Dan Brown''), (''email'', JStr ''dan@example.com''),
              (''course'', JStr ''CS''), (''enrollmentDate'', JStr ''2024-03-01''),
              (''status'', JStr ''active''), (''id'', JStr ''1700000000000'')]]"
  by (simp add: students_sample_dashboard first_sample_record_def defined_properties_def)

lemma window_sample_dashboard:
  "window_defined (browser_env sample_dashboard)"
  "\<not> storage_denied (browser_env sample_dashboard)"
  "\<not> storage_full (browser_env sample_dashboard)"
  by (simp_all add: sample_dashboard_def handleAddStudent_def Let_def loaded_dashboard_def
      fresh_browser_def storage_defs)

lemma text_sample_dashboard:
  \<open>JSON_stringify (JArr (map JObj (students sample_dashboard)))
     = Some ''[{"id":"1","name":"Alice Johnson","email":"alice.johnson@email.com","course":"Computer Science","profileImage":"/professional-woman-portrait.png","enrollmentDate":"2024-01-15","status":"active"},{"name":"Dan Brown","email":"dan@example.com","course":"CS","enrollmentDate":"2024-03-01","status":"active","id":"1700000000000"}]''\<close>
  by (simp add: students_sample_dashboard first_sample_record_def QuoteJSONString_def
      escapeChar_def)

lemma calls_sample_dashboard:
  \<open>calls (browser_env sample_dashboard)
     = [SetItem STORAGE_KEY ''[{"id":"1","name":"Alice Johnson","email":"alice.johnson@email.com","course":"Computer Science","profileImage":"/professional-woman-portrait.png","enrollmentDate":"2024-01-15","status":"active"},{"name":"Dan Brown","email":"dan@example.com","course":"CS","enrollmentDate":"2024-03-01","status":"active","id":"1700000000000"}]'']\<close>
proof -
  have w: "window_defined (browser_env loaded_dashboard)"
    and c: "calls (browser_env loaded_dashboard) = []"
    by (simp_all add: loaded_dashboard_def fresh_browser_def)
  have e: "browser_env sample_dashboard
      = snd (saveStudents (map JObj (students sample_dashboard)) (browser_env loaded_dashboard))"
    by (simp add: sample_dashboard_def handleAddStudent_def Let_def)
  show ?thesis
    unfolding e saveStudents_calls [OF w text_sample_dashboard] c by simp
qed


lemma plain_getDefaultStudents: "plain_elements getDefaultStudents"
  by (simp add: getDefaultStudents_def isArrayIndex_def isDigit_def)

text \<open>
  C2, as the code has it. With a functioning storage medium (a \<open>window\<close>, reads and writes
  succeed), saving a record set and loading it again yields what JSON keeps of it: the same
  records in the same order, each with its fields in the same order and with the same
  values, but without the fields whose value is \<open>undefined\<close>. So the array comes back
  unchanged when no field is \<open>undefined\<close>; and an array of students (records of strings, a
  field of which may be \<open>undefined\<close>) comes back as the same records without their
  \<open>undefined\<close> fields, every field of which still reads as before: unchanged when, and
  only when, no field of a record is \<open>undefined\<close>.
\<close>

theorem save_then_load_roundtrip:
  "window_defined env \<and> \<not> storage_denied env \<and> \<not> storage_full env \<longrightarrow>
     (storable_elements R \<longrightarrow>
        fst (saveStudents R env) = Normal True
        \<and> fst (getStudents (snd (saveStudents R env))) = Normal (without_undefined_elements R))
     \<and> (plain_elements R \<longrightarrow>
        fst (saveStudents R env) = Normal True
        \<and> fst (getStudents (snd (saveStudents R env))) = Normal R)
     \<and> (list_all flat_record S \<longrightarrow>
        fst (getStudents (snd (saveStudents (map JObj S) env)))
          = Normal (map (\<lambda>ps. JObj (defined_properties ps)) S)
        \<and> (\<forall>ps \<in> set S. \<forall>k. get_property (defined_properties ps) k = get_property ps k)
        \<and> (fst (getStudents (snd (saveStudents (map JObj S) env))) = Normal (map JObj S)
             \<longleftrightarrow> list_all (\<lambda>ps. JUndefined \<notin> snd ` set ps) S))"
proof
  assume f: "window_defined env \<and> \<not> storage_denied env \<and> \<not> storage_full env"
  have ok: "fst (saveStudents R env) = Normal True" for R
    using f by (simp add: saveStudents_ok [OF _ _ _ JSON_stringify_array])
  have rt: "fst (getStudents (snd (saveStudents R env))) = Normal (without_undefined_elements R)"
    if "storable_elements R" for R
    using f that by (simp add: load_after_save)
  have 1: "fst (saveStudents R env) = Normal True
        \<and> fst (getStudents (snd (saveStudents R env))) = Normal (without_undefined_elements R)"
    if "storable_elements R"
    using ok rt [OF that] by simp
  have 2: "fst (saveStudents R env) = Normal True
        \<and> fst (getStudents (snd (saveStudents R env))) = Normal R"
    if "plain_elements R"
  proof -
    from that have "storable_elements R \<and> without_undefined_elements R = R"
      by (rule plain_elements_storable)
    with ok rt [of R] show ?thesis by simp
  qed
  have 3: "fst (getStudents (snd (saveStudents (map JObj S) env)))
          = Normal (map (\<lambda>ps. JObj (defined_properties ps)) S)"
    if "list_all flat_record S"
    using rt [OF flat_records_storable [OF that]]
    by (simp only: flat_records_without_undefined [OF that])
  have 4: "\<forall>ps \<in> set S. \<forall>k. get_property (defined_properties ps) k = get_property ps k"
    if "list_all flat_record S"
  proof (intro ballI allI)
    fix ps k assume "ps \<in> set S"
    with that have "flat_record ps" by (simp add: list_all_iff)
    then have "distinct (map fst ps)" by (simp add: flat_record_def)
    then show "get_property (defined_properties ps) k = get_property ps k"
      by (rule get_property_defined)
  qed
  have 5: "fst (getStudents (snd (saveStudents (map JObj S) env))) = Normal (map JObj S)
        \<longleftrightarrow> list_all (\<lambda>ps. JUndefined \<notin> snd ` set ps) S"
    if "list_all flat_record S"
  proof -
    have "defined_properties ps = ps \<longleftrightarrow> JUndefined \<notin> snd ` set ps" for ps
      by (force simp: defined_properties_def filter_id_conv)
    then have "map (\<lambda>ps. JObj (defined_properties ps)) S = map JObj S
        \<longleftrightarrow> list_all (\<lambda>ps. JUndefined \<notin> snd ` set ps) S"
      by (simp add: list_all_iff)
    with 3 [OF that] show ?thesis by simp
  qed
  from 1 2 3 4 5
  show "(storable_elements R \<longrightarrow>
        fst (saveStudents R env) = Normal True
        \<and> fst (getStudents (snd (saveStudents R env))) = Normal (without_undefined_elements R))
     \<and> (plain_elements R \<longrightarrow>
        fst (saveStudents R env) = Normal True
        \<and> fst (getStudents (snd (saveStudents R env))) = Normal R)
     \<and> (list_all flat_record S \<longrightarrow>
        fst (getStudents (snd (saveStudents (map JObj S) env)))
          = Normal (map (\<lambda>ps. JObj (defined_properties ps)) S)
        \<and> (\<forall>ps \<in> set S. \<forall>k. get_property (defined_properties ps) k = get_property ps k)
        \<and> (fst (getStudents (snd (saveStudents (map JObj S) env))) = Normal (map JObj S)
             \<longleftrightarrow> list_all (\<lambda>ps. JUndefined \<notin> snd ` set ps) S))"
    by blast
qed

theorem save_then_load_roundtrip_witness:
  "fst (saveStudents getDefaultStudents fresh_browser) = Normal True
   \<and> fst (getStudents (snd (saveStudents getDefaultStudents fresh_browser)))
       = Normal getDefaultStudents
   \<and> fst (getStudents (snd (saveStudents (map JObj (students sample_dashboard)) fresh_browser)))
       = Normal [JObj first_sample_record,
           JObj [(''name'', JStr ''Dan Brown''), (''email'', JStr ''dan@example.com''),
                 (''course'', JStr ''CS''), (''enrollmentDate'', JStr ''2024-03-01''),
                 (''status'', JStr ''active''), (''id'', JStr ''1700000000000'')]]
   \<and> fst (getStudents (snd (saveStudents [JObj first_sample_record] fresh_browser)))
       = Normal [JObj first_sample_record]"
proof -
  have f: "window_defined fresh_browser \<and> \<not> storage_denied fresh_browser
      \<and> \<not> storage_full fresh_browser"
    by (simp add: fresh_browser_def)
  from save_then_load_roundtrip [of fresh_browser getDefaultStudents] f plain_getDefaultStudents
  have 1: "fst (saveStudents getDefaultStudents fresh_browser) = Normal True
   \<and> fst (getStudents (snd (saveStudents getDefaultStudents fresh_browser)))
       = Normal getDefaultStudents"
    by blast
  from save_then_load_roundtrip [of fresh_browser _ "students sample_dashboard"] f
    flat_sample_dashboard
  have "fst (getStudents (snd (saveStudents (map JObj (students sample_dashboard)) fresh_browser)))
       = Normal (map (\<lambda>ps. JObj (defined_properties ps)) (students sample_dashboard))"
    by blast
  then have 2: "fst (getStudents (snd (saveStudents (map JObj (students sample_dashboard)) fresh_browser)))
       = Normal [JObj first_sample_record,
           JObj [(''name'', JStr ''Dan Brown''), (''email'', JStr ''dan@example.com''),
                 (''course'', JStr ''CS''), (''enrollmentDate'', JStr ''2024-03-01''),
                 (''status'', JStr ''active''), (''id'', JStr ''1700000000000'')]]"
    by (simp only: defined_sample_dashboard)
  have a: "list_all flat_record [first_sample_record]"
    and b: "list_all (\<lambda>ps. JUndefined \<notin> snd ` set ps) [first_sample_record]"
    by (simp_all add: first_sample_record_def flat_record_def isArrayIndex_def isDigit_def)
  from save_then_load_roundtrip [of fresh_browser _ "[first_sample_record]"] f a
  have "fst (getStudents (snd (saveStudents (map JObj [first_sample_record]) fresh_browser)))
         = Normal (map JObj [first_sample_record])
       \<longleftrightarrow> list_all (\<lambda>ps. JUndefined \<notin> snd ` set ps) [first_sample_record]"
    by blast
  with b have "fst (getStudents (snd (saveStudents (map JObj [first_sample_record]) fresh_browser)))
       = Normal (map JObj [first_sample_record])"
    by (simp only:)
  then have 3: "fst (getStudents (snd (saveStudents [JObj first_sample_record] fresh_browser)))
       = Normal [JObj first_sample_record]"
    by simp
  from 1 2 3 show ?thesis by (simp only:)
qed

text \<open>
  C2 as stated fails for the record set of the dashboard after a student without a picture
  is added through the form: the new record has the field \<open>profileImage\<close> with the value
  \<open>undefined\<close>, and what is loaded after saving has no such field.
\<close>

theorem save_then_load_undefined_counterexample:
  "map JObj (students sample_dashboard)
     = [JObj first_sample_record,
        JObj [(''name'', JStr ''Dan Brown''), (''email'', JStr ''dan@example.com''),
              (''course'', JStr ''CS''), (''profileImage'', JUndefined),
              (''enrollmentDate'', JStr ''2024-03-01''), (''status'', JStr ''active''),
              (''id'', JStr ''1700000000000'')]]
   \<and> fst (getStudents (snd (saveStudents (map JObj (students sample_dashboard)) fresh_browser)))
       = Normal [JObj first_sample_record,
           JObj [(''name'', JStr ''Dan Brown''), (''email'', JStr ''dan@example.com''),
                 (''course'', JStr ''CS''), (''enrollmentDate'', JStr ''2024-03-01''),
                 (''status'', JStr ''active''), (''id'', JStr ''1700000000000'')]]
   \<and> fst (getStudents (snd (saveStudents (map JObj (students sample_dashboard)) fresh_browser)))
       \<noteq> Normal (map JObj (students sample_dashboard))"
proof -
  have f: "window_defined fresh_browser" "\<not> storage_denied fresh_browser"
      "\<not> storage_full fresh_browser"
    by (simp_all add: fresh_browser_def)
  have 1: "map JObj (students sample_dashboard)
     = [JObj first_sample_record,
        JObj [(''name'', JStr ''Dan Brown''), (''email'', JStr ''dan@example.com''),
              (''course'', JStr ''CS''), (''profileImage'', JUndefined),
              (''enrollmentDate'', JStr ''2024-03-01''), (''status'', JStr ''active''),
              (''id'', JStr ''1700000000000'')]]"
    by (simp add: students_sample_dashboard)
  have "fst (getStudents (snd (saveStudents (map JObj (students sample_dashboard)) fresh_browser)))
       = Normal (without_undefined_elements (map JObj (students sample_dashboard)))"
    using f flat_records_storable [OF flat_sample_dashboard] by (rule load_after_save)
  then have 2: "fst (getStudents (snd (saveStudents (map JObj (students sample_dashboard)) fresh_browser)))
       = Normal [JObj first_sample_record,
           JObj [(''name'', JStr ''Dan Brown''), (''email'', JStr ''dan@example.com''),
                 (''course'', JStr ''CS''), (''enrollmentDate'', JStr ''2024-03-01''),
                 (''status'', JStr ''active''), (''id'', JStr ''1700000000000'')]]"
    by (simp only: flat_records_without_undefined [OF flat_sample_dashboard]
        defined_sample_dashboard)
  have 3: "fst (getStudents (snd (saveStudents (map JObj (students sample_dashboard)) fresh_browser)))
       \<noteq> Normal (map JObj (students sample_dashboard))"
    by (subst 2, subst 1) simp
  from 1 2 3 show ?thesis by (intro conjI)
qed


section \<open>Deleting a record\<close>

lemma filter_remove_one:
  "distinct (map f xs) \<Longrightarrow> i \<in> f ` set xs \<Longrightarrow> Suc (length (filter (\<lambda>s. f s \<noteq> i) xs)) = length xs"
proof (induction xs)
  case Nil then show ?case by simp
next
  case (Cons x xs)
  show ?case
  proof (cases "f x = i")
    case True
    with Cons.prems have "i \<notin> f ` set xs" by auto
    then have "filter (\<lambda>s. f s \<noteq> i) xs = xs" by (auto simp: filter_id_conv)
    with True show ?thesis by simp
  next
    case False
    with Cons show ?thesis by auto
  qed
qed

lemma storable_elements_filter:
  "storable_elements (map JObj S) \<Longrightarrow> storable_elements (map JObj (filter P S))"
  by (induction S) (simp_all del: storable.simps)

text \<open>
  C4. \<open>handleDeleteStudent\<close> makes the record array the prior records whose id differs
  from the given one, in their prior order, and passes that very array to \<open>saveStudents\<close>:
  in a browser that is one \<open>setItem\<close> of the text of that array, and without a \<open>window\<close>
  nothing happens to the storage. For an id that no record has the array is unchanged and
  is saved all the same; for an id that exactly one record has (ids distinct) the array
  loses exactly one record. With a functioning storage medium the next load returns what
  JSON keeps of the new array: its records, without the fields whose value is
  \<open>undefined\<close>.
\<close>

theorem handleDeleteStudent_removes_by_id:
  "students (handleDeleteStudent i d)
     = filter (\<lambda>s. get_property s ''id'' \<noteq> JStr i) (students d)
   \<and> browser_env (handleDeleteStudent i d)
       = snd (saveStudents (map JObj (students (handleDeleteStudent i d))) (browser_env d))
   \<and> (window_defined (browser_env d) \<longrightarrow>
        (\<exists>t. JSON_stringify (JArr (map JObj (students (handleDeleteStudent i d)))) = Some t
           \<and> calls (browser_env (handleDeleteStudent i d))
               = calls (browser_env d) @ [SetItem STORAGE_KEY t]))
   \<and> (\<not> window_defined (browser_env d) \<longrightarrow>
        browser_env (handleDeleteStudent i d) = browser_env d)
   \<and> (JStr i \<notin> (\<lambda>s. get_property s ''id'') ` set (students d) \<longrightarrow>
        students (handleDeleteStudent i d) = students d)
   \<and> (JStr i \<in> (\<lambda>s. get_property s ''id'') ` set (students d)
        \<and> distinct (map (\<lambda>s. get_property s ''id'') (students d)) \<longrightarrow>
        Suc (length (students (handleDeleteStudent i d))) = length (students d))
   \<and> (window_defined (browser_env d) \<and> \<not> storage_denied (browser_env d)
        \<and> \<not> storage_full (browser_env d) \<and> storable_elements (map JObj (students d)) \<longrightarrow>
        fst (getStudents (browser_env (handleDeleteStudent i d)))
          = Normal (without_undefined_elements (map JObj (students (handleDeleteStudent i d)))))
   \<and> (window_defined (browser_env d) \<and> \<not> storage_denied (browser_env d)
        \<and> \<not> storage_full (browser_env d) \<and> list_all flat_record (students d) \<longrightarrow>
        fst (getStudents (browser_env (handleDeleteStudent i d)))
          = Normal (map (\<lambda>ps. JObj (defined_properties ps)) (students (handleDeleteStudent i d))))"
proof -
  let ?new = "students (handleDeleteStudent i d)"
  have a: "?new = filter (\<lambda>s. get_property s ''id'' \<noteq> JStr i) (students d)"
    by (simp add: handleDeleteStudent_def Let_def)
  have b: "browser_env (handleDeleteStudent i d)
       = snd (saveStudents (map JObj ?new) (browser_env d))"
    by (simp add: handleDeleteStudent_def Let_def)
  have c: "\<exists>t. JSON_stringify (JArr (map JObj ?new)) = Some t
           \<and> calls (browser_env (handleDeleteStudent i d))
               = calls (browser_env d) @ [SetItem STORAGE_KEY t]"
    if w: "window_defined (browser_env d)"
  proof -
    let ?t = "''['' @ join_commas (stringify_elements (map JObj ?new)) @ '']''"
    have t: "JSON_stringify (JArr (map JObj ?new)) = Some ?t" by (rule JSON_stringify_array)
    have "calls (browser_env (handleDeleteStudent i d))
        = calls (browser_env d) @ [SetItem STORAGE_KEY ?t]"
      unfolding b by (rule saveStudents_calls [OF w t])
    with t show ?thesis by blast
  qed
  have n: "browser_env (handleDeleteStudent i d) = browser_env d"
    if "\<not> window_defined (browser_env d)"
    unfolding b using that by (simp add: storage_defs)
  have e: "?new = students d" if "JStr i \<notin> (\<lambda>s. get_property s ''id'') ` set (students d)"
    using that by (force simp: a filter_id_conv)
  have f: "Suc (length ?new) = length (students d)"
    if "JStr i \<in> (\<lambda>s. get_property s ''id'') ` set (students d)"
      "distinct (map (\<lambda>s. get_property s ''id'') (students d))"
    unfolding a using that(2,1) by (rule filter_remove_one)
  have g: "fst (getStudents (browser_env (handleDeleteStudent i d)))
          = Normal (without_undefined_elements (map JObj ?new))"
    if "window_defined (browser_env d)" "\<not> storage_denied (browser_env d)"
      "\<not> storage_full (browser_env d)" "storable_elements (map JObj (students d))"
  proof -
    from that(4) have "storable_elements (map JObj ?new)"
      unfolding a by (rule storable_elements_filter)
    with that(1-3) show ?thesis unfolding b by (rule load_after_save)
  qed
  have h: "fst (getStudents (browser_env (handleDeleteStudent i d)))
          = Normal (map (\<lambda>ps. JObj (defined_properties ps)) ?new)"
    if "window_defined (browser_env d)" "\<not> storage_denied (browser_env d)"
      "\<not> storage_full (browser_env d)" "list_all flat_record (students d)"
  proof -
    from that(4) have fl: "list_all flat_record ?new" by (simp add: a list_all_iff)
    from that(4) have "storable_elements (map JObj (students d))" by (rule flat_records_storable)
    with that(1-3) have "fst (getStudents (browser_env (handleDeleteStudent i d)))
          = Normal (without_undefined_elements (map JObj ?new))" by (rule g)
    then show ?thesis by (simp only: flat_records_without_undefined [OF fl])
  qed
  from a b c n e f g h show ?thesis by blast
qed

theorem handleDeleteStudent_removes_by_id_witness:
  \<open>students (handleDeleteStudent ''1'' sample_dashboard)
     = [[(''name'', JStr ''Dan Brown''), (''email'', JStr ''dan@example.com''),
         (''course'', JStr ''CS''), (''profileImage'', JUndefined),
         (''enrollmentDate'', JStr ''2024-03-01''), (''status'', JStr ''active''),
         (''id'', JStr ''1700000000000'')]]
   \<and> students (handleDeleteStudent ''9'' sample_dashboard) = students sample_dashboard
   \<and> calls (browser_env (handleDeleteStudent ''1'' sample_dashboard))
       = calls (browser_env sample_dashboard)
         @ [SetItem STORAGE_KEY ''[{"name":"Dan Brown","email":"dan@example.com","course":"CS","enrollmentDate":"2024-03-01","status":"active","id":"1700000000000"}]'']
   \<and> calls (browser_env (handleDeleteStudent ''9'' sample_dashboard))
       = calls (browser_env sample_dashboard)
         @ [SetItem STORAGE_KEY ''[{"id":"1","name":"Alice Johnson","email":"alice.johnson@email.com","course":"Computer Science","profileImage":"/professional-woman-portrait.png","enrollmentDate":"2024-01-15","status":"active"},{"name":"Dan Brown","email":"dan@example.com","course":"CS","enrollmentDate":"2024-03-01","status":"active","id":"1700000000000"}]'']
   \<and> Suc (length (students (handleDeleteStudent ''1'' sample_dashboard))) = 2
   \<and> fst (getStudents (browser_env (handleDeleteStudent ''1'' sample_dashboard)))
       = Normal [JObj [(''name'', JStr ''Dan Brown''), (''email'', JStr ''dan@example.com''),
                       (''course'', JStr ''CS''), (''enrollmentDate'', JStr ''2024-03-01''),
                       (''status'', JStr ''active''), (''id'', JStr ''1700000000000'')]]\<close>
proof -
  note s = students_sample_dashboard
  note w = window_sample_dashboard
  have ids: "map (\<lambda>s. get_property s ''id'') (students sample_dashboard)
      = [JStr ''1'', JStr ''1700000000000'']"
    by (simp add: s first_sample_record_def get_property_def obj_get_def)
  have 1: "students (handleDeleteStudent ''1'' sample_dashboard)
     = [[(''name'', JStr ''Dan Brown''), (''email'', JStr ''dan@example.com''),
         (''course'', JStr ''CS''), (''profileImage'', JUndefined),
         (''enrollmentDate'', JStr ''2024-03-01''), (''status'', JStr ''active''),
         (''id'', JStr ''1700000000000'')]]"
  proof -
    from handleDeleteStudent_removes_by_id [of "''1''" sample_dashboard]
    have "students (handleDeleteStudent ''1'' sample_dashboard)
        = filter (\<lambda>s. get_property s ''id'' \<noteq> JStr ''1'') (students sample_dashboard)"
      by blast
    then show ?thesis
      by (simp add: s first_sample_record_def get_property_def obj_get_def)
  qed
  have 2: "students (handleDeleteStudent ''9'' sample_dashboard) = students sample_dashboard"
  proof -
    have "JStr ''9'' \<notin> (\<lambda>s. get_property s ''id'') ` set (students sample_dashboard)"
      using ids by (simp only: set_map [symmetric]) simp
    with handleDeleteStudent_removes_by_id [of "''9''" sample_dashboard]
    show ?thesis by blast
  qed
  have 3: \<open>calls (browser_env (handleDeleteStudent ''1'' sample_dashboard))
       = calls (browser_env sample_dashboard)
         @ [SetItem STORAGE_KEY ''[{"name":"Dan Brown","email":"dan@example.com","course":"CS","enrollmentDate":"2024-03-01","status":"active","id":"1700000000000"}]'']\<close>
  proof -
    from handleDeleteStudent_removes_by_id [of "''1''" sample_dashboard] w(1)
    obtain t where t: "JSON_stringify (JArr (map JObj (students (handleDeleteStudent ''1'' sample_dashboard)))) = Some t"
      "calls (browser_env (handleDeleteStudent ''1'' sample_dashboard))
         = calls (browser_env sample_dashboard) @ [SetItem STORAGE_KEY t]"
      by blast
    from t(1) have \<open>t = ''[{"name":"Dan Brown","email":"dan@example.com","course":"CS","enrollmentDate":"2024-03-01","status":"active","id":"1700000000000"}]''\<close>
      unfolding 1 by (simp add: QuoteJSONString_def escapeChar_def)
    with t(2) show ?thesis by (simp only:)
  qed
  have 4: \<open>calls (browser_env (handleDeleteStudent ''9'' sample_dashboard))
       = calls (browser_env sample_dashboard)
         @ [SetItem STORAGE_KEY ''[{"id":"1","name":"Alice Johnson","email":"alice.johnson@email.com","course":"Computer Science","profileImage":"/professional-woman-portrait.png","enrollmentDate":"2024-01-15","status":"active"},{"name":"Dan Brown","email":"dan@example.com","course":"CS","enrollmentDate":"2024-03-01","status":"active","id":"1700000000000"}]'']\<close>
  proof -
    from handleDeleteStudent_removes_by_id [of "''9''" sample_dashboard] w(1)
    obtain t where t: "JSON_stringify (JArr (map JObj (students (handleDeleteStudent ''9'' sample_dashboard)))) = Some t"
      "calls (browser_env (handleDeleteStudent ''9'' sample_dashboard))
         = calls (browser_env sample_dashboard) @ [SetItem STORAGE_KEY t]"
      by blast
    from t(1) have \<open>t = ''[{"id":"1","name":"Alice Johnson","email":"alice.johnson@email.com","course":"Computer Science","profileImage":"/professional-woman-portrait.png","enrollmentDate":"2024-01-15","status":"active"},{"name":"Dan Brown","email":"dan@example.com","course":"CS","enrollmentDate":"2024-03-01","status":"active","id":"1700000000000"}]''\<close>
      unfolding 2 text_sample_dashboard by simp
    with t(2) show ?thesis by (simp only:)
  qed
  have 5: "Suc (length (students (handleDeleteStudent ''1'' sample_dashboard))) = 2"
  proof -
    have "JStr ''1'' \<in> (\<lambda>s. get_property s ''id'') ` set (students sample_dashboard)"
      using ids by (simp only: set_map [symmetric]) simp
    moreover have "distinct (map (\<lambda>s. get_property s ''id'') (students sample_dashboard))"
      unfolding ids by simp
    ultimately have "Suc (length (students (handleDeleteStudent ''1'' sample_dashboard)))
        = length (students sample_dashboard)"
      using handleDeleteStudent_removes_by_id [of "''1''" sample_dashboard] by blast
    then show ?thesis by (simp add: s)
  qed
  have 6: "fst (getStudents (browser_env (handleDeleteStudent ''1'' sample_dashboard)))
       = Normal [JObj [(''name'', JStr ''Dan Brown''), (''email'', JStr ''dan@example.com''),
                       (''course'', JStr ''CS''), (''enrollmentDate'', JStr ''2024-03-01''),
                       (''status'', JStr ''active''), (''id'', JStr ''1700000000000'')]]"
  proof -
    from handleDeleteStudent_removes_by_id [of "''1''" sample_dashboard] w flat_sample_dashboard
    have "fst (getStudents (browser_env (handleDeleteStudent ''1'' sample_dashboard)))
          = Normal (map (\<lambda>ps. JObj (defined_properties ps))
              (students (handleDeleteStudent ''1'' sample_dashboard)))"
      by blast
    then show ?thesis unfolding 1 by (simp add: defined_properties_def)
  qed
  from 1 2 3 4 5 6 show ?thesis by (intro conjI)
qed


end
